theory Spec2Isabelle
  imports Main "HOL-Library.Sublist" "HOL-Library.Char_ord" "HOL-Library.List_Lexorder"
begin

section \<open>Python values shared by the two scripts\<close>

text \<open>
  Exceptions are values. \<open>KeyboardInterrupt\<close> and \<open>SystemExit\<close> derive from
  \<open>BaseException\<close> only, so an \<open>except Exception\<close> clause lets them through.
\<close>

datatype exn =
    NameError | AttributeError | ImportError | KeyError | ValueError | EOFError
  | OSError | RuntimeError | KeyboardInterrupt | SystemExit int

fun is_Exception :: "exn \<Rightarrow> bool" where
  "is_Exception KeyboardInterrupt = False"
| "is_Exception (SystemExit _) = False"
| "is_Exception _ = True"

text \<open>
  A string is a list of code points below 256. \<open>str.strip()\<close> removes Python's
  white space from both ends: in this range the codes 9 to 13, 28 to 32, 133 and
  160.
\<close>

definition py_isspace :: "char \<Rightarrow> bool" where
  "py_isspace c =
     (let n = (of_char c :: nat)
      in (9 \<le> n \<and> n \<le> 13) \<or> (28 \<le> n \<and> n \<le> 32) \<or> n = 133 \<or> n = 160)"

definition strip :: "string \<Rightarrow> string" where
  "strip s = rev (dropWhile py_isspace (rev (dropWhile py_isspace s)))"

section \<open>The dataset collector\<close>

subsection \<open>Paths and the file system\<close>

definition DATA_DIR :: string where
  "DATA_DIR = ''./training_data''"

text \<open>
  \<open>os.path.join\<close> of two components on POSIX: an absolute second component
  discards the first; otherwise one separator is put between them unless the first
  is empty or already ends in one.
\<close>

definition path_join :: "string \<Rightarrow> string \<Rightarrow> string" where
  "path_join a b =
     (if prefix ''/'' b then b
      else if a = [] \<or> suffix ''/'' a then a @ b
      else a @ ''/'' @ b)"

definition basename :: "string \<Rightarrow> string" where
  "basename p = rev (takeWhile (\<lambda>c. c \<noteq> CHR ''/'') (rev p))"

text \<open>\<open>os.path.dirname\<close>: everything before the last separator, trailing
  separators removed unless the head consists of separators only.\<close>

definition dirname :: "string \<Rightarrow> string" where
  "dirname p =
     (let head = rev (dropWhile (\<lambda>c. c \<noteq> CHR ''/'') (rev p));
          cut = rev (dropWhile (\<lambda>c. c = CHR ''/'') (rev head))
      in if cut = [] then head else cut)"

text \<open>Console lines are kept as data; the marker of the census is its own type.\<close>

datatype marker = Dangerous | Safe

datatype msg =
    CreatedDataDir string
  | BurstStart nat
  | CapturedImage nat string
  | CaptureComplete nat
  | EnterValidClass
  | CreatedFolder string
  | Saved nat string
  | FlagLine string
  | EnterValidFlagClass
  | Flagged string
  | Menu
  | InvalidClassName
  | CurrentBuzzer string
  | NoBuzzer
  | CensusHeader
  | NoData
  | CensusLine marker string nat
  | CensusTotal nat
  | PreviewStart
  | PreviewDone
  | Goodbye
  | InvalidChoice
  | Interrupted
  | ErrorLine exn
  | Traceback exn

text \<open>
  The state of one run: the global \<open>buzzer_class\<close>, the directories and regular
  files of the file system (path strings as the script builds them), the clock in
  milliseconds, how often the camera was started and stopped, how many captures
  were requested, and the console.
\<close>

record world =
  buzzer_class :: "string option"
  dirs :: "string list"
  files :: "string list"
  clock :: nat
  cam_started :: nat
  cam_stopped :: nat
  shots :: nat
  console :: "msg list"

definition say :: "msg \<Rightarrow> world \<Rightarrow> world" where
  "say m w = w\<lparr>console := console w @ [m]\<rparr>"

text \<open>
  The working directory \<open>.\<close> and the root \<open>/\<close> are directories of every file
  system, listed or not.
\<close>

definition isdir :: "string \<Rightarrow> world \<Rightarrow> bool" where
  "isdir p w = (p \<in> set (dirs w) \<or> p = ''.'' \<or> p = ''/'')"

definition path_exists :: "string \<Rightarrow> world \<Rightarrow> bool" where
  "path_exists p w = (isdir p w \<or> p \<in> set (files w))"

text \<open>
  What the hardware, the operator and the operating system do is a parameter of
  the run: whether the \<open>k\<close>-th call of \<open>picam2.start()\<close> or \<open>picam2.stop()\<close>
  raises, whether the \<open>k\<close>-th \<open>picam2.capture_file\<close> raises or succeeds (a
  successful capture of latency \<open>l\<close> takes \<open>l + 1\<close> milliseconds, so the clock
  moves between two tests of the loop), how \<open>datetime.now().strftime\<close> prints a
  clock value, the time at which the operator presses Ctrl-C, if ever (the
  \<open>time.sleep\<close> that spans this time raises \<open>KeyboardInterrupt\<close>), and the paths
  the operating system refuses to create (permissions, a full or read-only
  medium).
\<close>

datatype shot = Captured nat | CaptureRaises exn

record camera =
  on_start :: "nat \<Rightarrow> exn option"
  on_stop :: "nat \<Rightarrow> exn option"
  on_capture :: "nat \<Rightarrow> shot"
  stamp :: "nat \<Rightarrow> string"
  interrupt_at :: "nat option"
  refuses :: "string \<Rightarrow> bool"

text \<open>
  The path names Linux accepts: no NUL character (Python raises \<open>ValueError\<close>
  before the system call), at most 4095 characters, and no component longer than
  255.
\<close>

fun components :: "string \<Rightarrow> string list" where
  "components [] = [[]]"
| "components (c # cs) =
     (if c = CHR ''/'' then [] # components cs
      else (case components cs of [] \<Rightarrow> [[c]] | x # xs \<Rightarrow> (c # x) # xs))"

definition path_error :: "string \<Rightarrow> exn option" where
  "path_error p =
     (if CHR 0x00 \<in> set p then Some ValueError
      else if 4095 < length p \<or> list_ex (\<lambda>c. 255 < length c) (components p) then Some OSError
      else None)"

text \<open>
  \<open>os.makedirs\<close> creates the leaf and every missing ancestor; the ancestors are
  the successive \<open>dirname\<close>s, as long as they get shorter. It raises when the
  name is not accepted, when the leaf exists, when a regular file is on the way,
  and when the system refuses one of the directories to create.
\<close>

function ancestors :: "string \<Rightarrow> string list" where
  "ancestors p =
     (let d = dirname p in
      if d = [] \<or> length p \<le> length d then [] else d # ancestors d)"
  by pat_completeness auto
termination
  by (relation "measure length") auto

declare ancestors.simps [simp del]

definition makedirs :: "camera \<Rightarrow> string \<Rightarrow> world \<Rightarrow> exn + world" where
  "makedirs cam p w =
     (case path_error p of
        Some e \<Rightarrow> Inl e
      | None \<Rightarrow>
          if path_exists p w then Inl OSError
          else if list_ex (\<lambda>a. a \<in> set (files w)) (ancestors p) then Inl OSError
          else if list_ex (refuses cam) (filter (\<lambda>d. \<not> isdir d w) (rev (ancestors p) @ [p]))
          then Inl OSError
          else Inr (w\<lparr>dirs := dirs w @ filter (\<lambda>d. \<not> isdir d w) (rev (ancestors p) @ [p])\<rparr>))"

text \<open>
  \<open>shutil.move\<close> of a regular file: into the destination when that is a directory,
  otherwise a rename. The rename needs the source, an accepted name, every
  directory on the way to the destination, and the consent of the system.
\<close>

definition real_dst :: "string \<Rightarrow> string \<Rightarrow> world \<Rightarrow> string" where
  "real_dst src dst w = (if isdir dst w then path_join dst (basename src) else dst)"

definition move :: "camera \<Rightarrow> string \<Rightarrow> string \<Rightarrow> world \<Rightarrow> exn + world" where
  "move cam src dst w =
     (if src \<notin> set (files w) then Inl OSError
      else if isdir dst w \<and> path_exists (real_dst src dst w) w then Inl OSError
      else
        (case path_error (real_dst src dst w) of
           Some e \<Rightarrow> Inl e
         | None \<Rightarrow>
             if \<not> list_all (\<lambda>a. isdir a w) (ancestors (real_dst src dst w)) then Inl OSError
             else if refuses cam (real_dst src dst w) then Inl OSError
             else Inr (w\<lparr>files := filter (\<lambda>f. f \<noteq> src \<and> f \<noteq> real_dst src dst w) (files w)
                                    @ [real_dst src dst w]\<rparr>)))"

text \<open>\<open>os.listdir\<close>: the names of the entries directly inside a directory.\<close>

definition child_name :: "string \<Rightarrow> string \<Rightarrow> string list" where
  "child_name d p =
     (if prefix (d @ ''/'') p \<and> drop (Suc (length d)) p \<noteq> []
         \<and> CHR ''/'' \<notin> set (drop (Suc (length d)) p)
      then [drop (Suc (length d)) p] else [])"

definition listdir :: "string \<Rightarrow> world \<Rightarrow> exn + string list" where
  "listdir d w =
     (if isdir d w then Inr (remdups (concat (map (child_name d) (dirs w @ files w))))
      else Inl OSError)"

subsection \<open>The camera and the clock\<close>

definition sleep :: "camera \<Rightarrow> nat \<Rightarrow> world \<Rightarrow> exn option \<times> world" where
  "sleep cam d w =
     (case interrupt_at cam of
        None \<Rightarrow> (None, w\<lparr>clock := clock w + d\<rparr>)
      | Some t \<Rightarrow>
          if clock w \<le> t \<and> t < clock w + d then (Some KeyboardInterrupt, w\<lparr>clock := Suc t\<rparr>)
          else (None, w\<lparr>clock := clock w + d\<rparr>))"

definition cam_start :: "camera \<Rightarrow> world \<Rightarrow> exn option \<times> world" where
  "cam_start cam w = (on_start cam (cam_started w), w\<lparr>cam_started := Suc (cam_started w)\<rparr>)"

definition cam_stop :: "camera \<Rightarrow> world \<Rightarrow> exn option \<times> world" where
  "cam_stop cam w = (on_stop cam (cam_stopped w), w\<lparr>cam_stopped := Suc (cam_stopped w)\<rparr>)"

subsection \<open>take_photos_continuous\<close>

text \<open>
  The \<open>while\<close> loop inside the \<open>try\<close>. It returns the pending exception, if any,
  the file names appended so far and the state. \<open>capture_count\<close> is the length of
  \<open>filenames\<close>: the two are advanced together.
\<close>

function capture_loop ::
  "camera \<Rightarrow> nat \<Rightarrow> nat \<Rightarrow> nat \<Rightarrow> string list \<Rightarrow> world \<Rightarrow> exn option \<times> string list \<times> world" where
  "capture_loop cam start_time duration interval filenames w =
     (if clock w - start_time < duration then
        (let filename = ''capture_'' @ stamp cam (clock w) @ ''.jpg'' in
         case on_capture cam (shots w) of
           CaptureRaises e \<Rightarrow> (Some e, filenames, w\<lparr>shots := Suc (shots w)\<rparr>)
         | Captured lat \<Rightarrow>
             (case sleep cam interval
                     (say (CapturedImage (Suc (length filenames)) filename)
                        (w\<lparr>shots := Suc (shots w),
                           files := filter (\<lambda>f. f \<noteq> filename) (files w) @ [filename],
                           clock := clock w + Suc lat\<rparr>)) of
                (Some e, w') \<Rightarrow> (Some e, filenames @ [filename], w')
              | (None, w') \<Rightarrow>
                  capture_loop cam start_time duration interval (filenames @ [filename]) w'))
      else (None, filenames, w))"
  by pat_completeness auto
termination
  by (relation "measure (\<lambda>(cam, start_time, duration, interval, filenames, w).
        start_time + duration - clock w)")
     (auto simp: sleep_def say_def split: option.splits if_splits)

declare capture_loop.simps [simp del]

text \<open>
  The body from the \<open>try\<close> on: the loop, then the \<open>finally\<close> clause. An exception
  of \<open>picam2.stop()\<close> replaces a pending one and skips the closing line.
\<close>

definition burst :: "camera \<Rightarrow> nat \<Rightarrow> nat \<Rightarrow> world \<Rightarrow> (exn + string list) \<times> world" where
  "burst cam duration interval w =
     (case capture_loop cam (clock w) duration interval [] w of
        (pending, filenames, w1) \<Rightarrow>
          (case cam_stop cam w1 of
             (Some e, w2) \<Rightarrow> (Inl e, w2)
           | (None, w2) \<Rightarrow>
               (case pending of
                  Some e \<Rightarrow> (Inl e, say (CaptureComplete (length filenames)) w2)
                | None \<Rightarrow> (Inr filenames, say (CaptureComplete (length filenames)) w2))))"

text \<open>The statements before the \<open>try\<close>: two sleeps around \<open>picam2.start()\<close>.\<close>

definition warm_up :: "camera \<Rightarrow> nat \<Rightarrow> world \<Rightarrow> exn option \<times> world" where
  "warm_up cam duration w =
     (case sleep cam 2000 (say (BurstStart duration) w) of
        (Some e, w1) \<Rightarrow> (Some e, w1)
      | (None, w1) \<Rightarrow>
          (case cam_start cam w1 of
             (Some e, w2) \<Rightarrow> (Some e, w2)
           | (None, w2) \<Rightarrow> sleep cam 1000 w2))"

text \<open>Durations are in milliseconds: the defaults 5 and 0.5 seconds are 5000 and 500.\<close>

definition take_photos_continuous ::
  "camera \<Rightarrow> string \<Rightarrow> string \<Rightarrow> nat \<Rightarrow> nat \<Rightarrow> world \<Rightarrow> (exn + string list) \<times> world" where
  "take_photos_continuous cam cls_name flag duration interval w =
     (case warm_up cam duration w of
        (Some e, w1) \<Rightarrow> (Inl e, w1)
      | (None, w1) \<Rightarrow> burst cam duration interval w1)"

subsection \<open>capture_images and flag_class\<close>

definition flag :: "string option \<Rightarrow> string \<Rightarrow> string" where
  "flag bc cls_name = (if bc = Some cls_name then ''dang'' else ''ndan'')"

definition class_dir :: "string \<Rightarrow> string \<Rightarrow> string" where
  "class_dir cls_name fl = path_join DATA_DIR (cls_name @ ''_'' @ fl)"

definition dest :: "string \<Rightarrow> string \<Rightarrow> string \<Rightarrow> string" where
  "dest cls_name fl fname = path_join (class_dir cls_name fl) (cls_name @ fl @ basename fname)"

fun move_files ::
  "camera \<Rightarrow> string \<Rightarrow> string \<Rightarrow> string list \<Rightarrow> world \<Rightarrow> exn option \<times> world" where
  "move_files cam cls_name fl [] w = (None, w)"
| "move_files cam cls_name fl (fname # rest) w =
     (case move cam fname (dest cls_name fl fname) w of
        Inl e \<Rightarrow> (Some e, w)
      | Inr w' \<Rightarrow> move_files cam cls_name fl rest w')"

text \<open>The lines that create the class directory when nothing is at its path.\<close>

definition make_class_dir :: "camera \<Rightarrow> string \<Rightarrow> world \<Rightarrow> exn + world" where
  "make_class_dir cam cd w =
     (if \<not> path_exists cd w
      then (case makedirs cam cd w of
              Inl e \<Rightarrow> Inl e
            | Inr w' \<Rightarrow> Inr (say (CreatedFolder cd) w'))
      else Inr w)"

definition capture_images :: "camera \<Rightarrow> string \<Rightarrow> world \<Rightarrow> exn option \<times> world" where
  "capture_images cam cls_name w =
     (if cls_name = [] then (None, say EnterValidClass w)
      else
        (case make_class_dir cam (class_dir cls_name (flag (buzzer_class w) cls_name)) w of
           Inl e \<Rightarrow> (Some e, w)
         | Inr w1 \<Rightarrow>
             (case take_photos_continuous cam cls_name (flag (buzzer_class w) cls_name) 5000 500 w1 of
                (Inl e, w2) \<Rightarrow> (Some e, w2)
              | (Inr filenames, w2) \<Rightarrow>
                  (case move_files cam cls_name (flag (buzzer_class w) cls_name) filenames w2 of
                     (Some e, w3) \<Rightarrow> (Some e, w3)
                   | (None, w3) \<Rightarrow>
                       (None, say (FlagLine (flag (buzzer_class w) cls_name))
                                (say (Saved (length filenames)
                                        (class_dir cls_name (flag (buzzer_class w) cls_name))) w3))))))"

definition flag_class :: "string \<Rightarrow> world \<Rightarrow> world" where
  "flag_class cls_name w =
     (if cls_name = [] then say EnterValidFlagClass w
      else say (Flagged cls_name) (w\<lparr>buzzer_class := Some cls_name\<rparr>))"

subsection \<open>preview_camera and list_captured_data\<close>

definition preview_camera :: "camera \<Rightarrow> world \<Rightarrow> exn option \<times> world" where
  "preview_camera cam w =
     (case cam_start cam (say PreviewStart w) of
        (Some e, w1) \<Rightarrow> (Some e, w1)
      | (None, w1) \<Rightarrow>
          (case sleep cam 2000 w1 of
             (Some e, w2) \<Rightarrow> (Some e, w2)
           | (None, w2) \<Rightarrow>
               (case cam_stop cam w2 of
                  (Some e, w3) \<Rightarrow> (Some e, w3)
                | (None, w3) \<Rightarrow> (None, say PreviewDone w3))))"

definition flag_emoji :: "string \<Rightarrow> marker" where
  "flag_emoji folder = (if sublist ''_dang'' folder then Dangerous else Safe)"

fun census :: "string list \<Rightarrow> nat \<Rightarrow> world \<Rightarrow> exn option \<times> world" where
  "census [] total_images w = (None, say (CensusTotal total_images) w)"
| "census (folder # rest) total_images w =
     (case listdir (path_join DATA_DIR folder) w of
        Inl e \<Rightarrow> (Some e, w)
      | Inr names \<Rightarrow>
          (let image_count = length (filter (suffix ''.jpg'') names) in
           census rest (total_images + image_count)
             (say (CensusLine (flag_emoji folder) folder image_count) w)))"

definition list_captured_data :: "world \<Rightarrow> exn option \<times> world" where
  "list_captured_data w =
     (if \<not> path_exists DATA_DIR w then (None, say NoData (say CensusHeader w))
      else
        (case listdir DATA_DIR w of
           Inl e \<Rightarrow> (Some e, say CensusHeader w)
         | Inr names \<Rightarrow>
             (let folders = filter (\<lambda>f. isdir (path_join DATA_DIR f) w) names in
              if folders = [] then (None, say NoData (say CensusHeader w))
              else census (sort folders) 0 (say CensusHeader w))))"

subsection \<open>The menu loop and the top level\<close>

text \<open>
  Standard input is a list of events: a line typed by the operator, or Ctrl-C at
  the prompt. \<open>input()\<close> on exhausted input raises \<open>EOFError\<close>.
\<close>

datatype inp = Line string | Interrupt

definition ensure_data_dir :: "camera \<Rightarrow> world \<Rightarrow> exn option \<times> world" where
  "ensure_data_dir cam w =
     (if \<not> path_exists DATA_DIR w
      then (case makedirs cam DATA_DIR w of
              Inl e \<Rightarrow> (Some e, w)
            | Inr w' \<Rightarrow> (None, say (CreatedDataDir DATA_DIR) w'))
      else (None, w))"

text \<open>Menu choice 3; \<open>if buzzer_class:\<close> is false for \<open>None\<close> and for the empty string.\<close>

definition view_buzzer_class :: "world \<Rightarrow> world" where
  "view_buzzer_class w =
     (case buzzer_class w of
        None \<Rightarrow> say NoBuzzer w
      | Some b \<Rightarrow> if b \<noteq> [] then say (CurrentBuzzer b) w else say NoBuzzer w)"

fun main_loop :: "camera \<Rightarrow> inp list \<Rightarrow> world \<Rightarrow> exn option \<times> world" where
  "main_loop cam [] w = (Some EOFError, say Menu w)"
| "main_loop cam (Interrupt # ins) w = (Some KeyboardInterrupt, say Menu w)"
| "main_loop cam (Line l # ins) w =
     (if strip l = ''1'' then
        (case ins of
           [] \<Rightarrow> (Some EOFError, say Menu w)
         | Interrupt # ins' \<Rightarrow> (Some KeyboardInterrupt, say Menu w)
         | Line c # ins' \<Rightarrow>
             if strip c \<noteq> [] then
               (case capture_images cam (strip c) (say Menu w) of
                  (Some e, w') \<Rightarrow> (Some e, w')
                | (None, w') \<Rightarrow> main_loop cam ins' w')
             else main_loop cam ins' (say InvalidClassName (say Menu w)))
      else if strip l = ''2'' then
        (case ins of
           [] \<Rightarrow> (Some EOFError, say Menu w)
         | Interrupt # ins' \<Rightarrow> (Some KeyboardInterrupt, say Menu w)
         | Line c # ins' \<Rightarrow> main_loop cam ins' (flag_class (strip c) (say Menu w)))
      else if strip l = ''3'' then main_loop cam ins (view_buzzer_class (say Menu w))
      else if strip l = ''4'' then
        (case list_captured_data (say Menu w) of
           (Some e, w') \<Rightarrow> (Some e, w')
         | (None, w') \<Rightarrow> main_loop cam ins w')
      else if strip l = ''5'' then
        (case preview_camera cam (say Menu w) of
           (Some e, w') \<Rightarrow> (Some e, w')
         | (None, w') \<Rightarrow> main_loop cam ins w')
      else if strip l = ''6'' then (None, say Goodbye (say Menu w))
      else main_loop cam ins (say InvalidChoice (say Menu w)))"

definition main :: "camera \<Rightarrow> inp list \<Rightarrow> world \<Rightarrow> exn option \<times> world" where
  "main cam ins w =
     (case ensure_data_dir cam w of
        (Some e, w') \<Rightarrow> (Some e, w')
      | (None, w') \<Rightarrow> main_loop cam ins w')"

text \<open>
  The state after the module-level statements: \<open>buzzer_class = None\<close>, the camera
  object created and configured, nothing printed; the file system is what the run
  finds.
\<close>

definition initial :: "string list \<Rightarrow> string list \<Rightarrow> world" where
  "initial ds fs =
     \<lparr>buzzer_class = None, dirs = ds, files = fs, clock = 0,
      cam_started = 0, cam_stopped = 0, shots = 0, console = []\<rparr>"

text \<open>
  Name resolution at the last statement of the module. The module namespace holds
  the attributes the interpreter sets, the imports, the two assignments of the
  configuration, the camera objects and the functions; \<open>__name__\<close> is
  \<open>"__main__"\<close> when the file is run as a script. Behind it are the builtins, of
  which the script uses the ones listed. A name found in neither raises
  \<open>NameError\<close>.
\<close>

datatype pyval = Str string | Object

definition module_names :: "string list" where
  "module_names =
     [''__doc__'', ''__package__'', ''__loader__'', ''__spec__'', ''__builtins__'', ''__file__'',
      ''os'', ''shutil'', ''time'', ''datetime'', ''Picamera2'', ''np'', ''Image'',
      ''DATA_DIR'', ''buzzer_class'', ''picam2'', ''camera_config'',
      ''ensure_data_dir'', ''take_photos_continuous'', ''capture_images'', ''flag_class'',
      ''show_menu'', ''preview_camera'', ''list_captured_data'', ''main'']"

definition builtin_names :: "string list" where
  "builtin_names = [''print'', ''input'', ''len'', ''sorted'', ''Exception'', ''KeyboardInterrupt'']"

definition lookup_name :: "string \<Rightarrow> exn + pyval" where
  "lookup_name n =
     (if n = ''__name__'' then Inr (Str ''__main__'')
      else if n \<in> set module_names \<or> n \<in> set builtin_names then Inr Object
      else Inl NameError)"

text \<open>
  The \<open>try\<close> statement around \<open>main()\<close>: \<open>KeyboardInterrupt\<close> and every
  \<open>Exception\<close> are printed and swallowed, anything else leaves the process with its
  own status; the \<open>finally\<close> clause stops the camera and ignores what that raises.
\<close>

definition exit_status :: "exn \<Rightarrow> int" where
  "exit_status e = (case e of SystemExit n \<Rightarrow> n | KeyboardInterrupt \<Rightarrow> 130 | _ \<Rightarrow> 1)"

definition guarded_main :: "camera \<Rightarrow> inp list \<Rightarrow> world \<Rightarrow> int \<times> world" where
  "guarded_main cam ins w =
     (case main cam ins w of
        (None, w1) \<Rightarrow> (0, snd (cam_stop cam w1))
      | (Some e, w1) \<Rightarrow>
          if e = KeyboardInterrupt then (0, snd (cam_stop cam (say Interrupted w1)))
          else if is_Exception e then (0, snd (cam_stop cam (say (ErrorLine e) w1)))
          else (exit_status e, say (Traceback e) (snd (cam_stop cam w1))))"

text \<open>
  The last statement of the module, \<open>if _name_ == "_main_":\<close>. The condition is
  evaluated first; an exception there is outside every \<open>try\<close>, so the interpreter
  prints the traceback and the process ends with status 1.
\<close>

definition script :: "camera \<Rightarrow> inp list \<Rightarrow> world \<Rightarrow> int \<times> world" where
  "script cam ins w =
     (case lookup_name ''_name_'' of
        Inl e \<Rightarrow> (exit_status e, say (Traceback e) w)
      | Inr v \<Rightarrow> if v = Str ''_main_'' then guarded_main cam ins w else (0, w))"

text \<open>
  The single slot holds nothing or one class name, and a class name is a non-empty
  string.
\<close>

definition flag_state_ok :: "world \<Rightarrow> bool" where
  "flag_state_ok w = (case buzzer_class w of None \<Rightarrow> True | Some c \<Rightarrow> c \<noteq> [])"

definition flagged :: "world \<Rightarrow> string \<Rightarrow> bool" where
  "flagged w c = (buzzer_class w = Some c)"

text \<open>
  A camera for examples: it starts and stops without error, the first capture
  succeeds after 100 milliseconds and the second raises.
\<close>

definition example_camera :: camera where
  "example_camera =
     \<lparr>on_start = (\<lambda>k. None), on_stop = (\<lambda>k. None),
      on_capture = (\<lambda>k. if k = 0 then Captured 99 else CaptureRaises RuntimeError),
      stamp = (\<lambda>t. ''t''), interrupt_at = None, refuses = (\<lambda>p. False)\<rparr>"

definition steady_camera :: camera where
  "steady_camera =
     \<lparr>on_start = (\<lambda>k. None), on_stop = (\<lambda>k. None),
      on_capture = (\<lambda>k. Captured 4999),
      stamp = (\<lambda>t. ''1''), interrupt_at = None, refuses = (\<lambda>p. False)\<rparr>"



definition wire_flagged :: world where
  "wire_flagged =
     \<lparr>buzzer_class = Some ''wire'', dirs = [''.'', ''./training_data''], files = [], clock = 0,
      cam_started = 0, cam_stopped = 0, shots = 0,
      console = []\<rparr>"



section \<open>The diagnostic runner\<close>

subsection \<open>Dictionaries and decimal numerals\<close>

text \<open>
  A \<open>dict\<close> is an association list in insertion order with distinct keys; storing
  under an existing key replaces the value in place, as in Python.
\<close>

fun dict_set :: "'k \<Rightarrow> 'v \<Rightarrow> ('k \<times> 'v) list \<Rightarrow> ('k \<times> 'v) list" where
  "dict_set k v [] = [(k, v)]"
| "dict_set k v ((k', v') # d) = (if k' = k then (k, v) # d else (k', v') # dict_set k v d)"

definition dict_of :: "('k \<times> 'v) list \<Rightarrow> ('k \<times> 'v) list" where
  "dict_of pairs = foldl (\<lambda>d (k, v). dict_set k v d) [] pairs"

definition is_digit :: "char \<Rightarrow> bool" where
  "is_digit c = (48 \<le> (of_char c :: nat) \<and> (of_char c :: nat) \<le> 57)"

definition digit_char :: "nat \<Rightarrow> char" where
  "digit_char d = char_of (48 + d)"

text \<open>\<open>str(n)\<close> for a natural number, and \<open>str(i)\<close> for an integer.\<close>

function str_nat :: "nat \<Rightarrow> string" where
  "str_nat n = (if n < 10 then [digit_char n] else str_nat (n div 10) @ [digit_char (n mod 10)])"
  by pat_completeness auto
termination
  by (relation "measure id") auto

declare str_nat.simps [simp del]

definition str_int :: "int \<Rightarrow> string" where
  "str_int i = (if i < 0 then CHR ''-'' # str_nat (nat (- i)) else str_nat (nat i))"

definition nat_of_digits :: "string \<Rightarrow> nat" where
  "nat_of_digits ds = foldl (\<lambda>a c. 10 * a + ((of_char c :: nat) - 48)) 0 ds"

subsection \<open>The JSON text of a label map\<close>

text \<open>
  \<open>json.dump(class_indices, f, indent=2)\<close> for a dictionary from strings to
  integers. With \<open>ensure_ascii\<close>, the quote
  and the backslash get a backslash, the control characters with a short escape
  get it, and every other character outside the printable ASCII range is written
  as \<open>\u00XX\<close>.
\<close>

definition DQ :: char where "DQ = CHR 0x22"
definition BSL :: char where "BSL = CHR 0x5C"
definition NL :: char where "NL = CHR 0x0A"

definition hex_char :: "nat \<Rightarrow> char" where
  "hex_char d = (if d < 10 then char_of (48 + d) else char_of (87 + d))"

definition esc :: "char \<Rightarrow> string" where
  "esc c =
     (let n = (of_char c :: nat) in
      if c = DQ then [BSL, DQ]
      else if c = BSL then [BSL, BSL]
      else if n = 10 then [BSL, CHR ''n'']
      else if n = 13 then [BSL, CHR ''r'']
      else if n = 9 then [BSL, CHR ''t'']
      else if n = 8 then [BSL, CHR ''b'']
      else if n = 12 then [BSL, CHR ''f'']
      else if n < 32 \<or> 126 < n then [BSL, CHR ''u'', CHR ''0'', CHR ''0'', hex_char (n div 16), hex_char (n mod 16)]
      else [c])"

definition json_string :: "string \<Rightarrow> string" where
  "json_string s = DQ # concat (map esc s) @ [DQ]"

definition json_item :: "string \<times> int \<Rightarrow> string" where
  "json_item kv = ''  '' @ json_string (fst kv) @ '': '' @ str_int (snd kv)"

fun json_items :: "(string \<times> int) list \<Rightarrow> string" where
  "json_items [] = []"
| "json_items [kv] = json_item kv"
| "json_items (kv # rest) = json_item kv @ CHR '','' # NL # json_items rest"

definition json_dumps :: "(string \<times> int) list \<Rightarrow> string" where
  "json_dumps d = (if d = [] then ''{}'' else CHR ''{'' # NL # json_items d @ [NL, CHR ''}''])"

subsection \<open>Reading a label map back\<close>

text \<open>
  \<open>json.load\<close> on the documents that are an object from strings to integers. The
  reader gives the dictionary, or reports that Python's decoder raises
  (\<open>Malformed\<close>), or that the document leaves this fragment (\<open>Unmodelled\<close>:
  another kind of value, a float, a \<open>\u\<close> escape), about which nothing is said.
\<close>

datatype 'a parse = Parsed 'a | Malformed | Unmodelled

datatype token = TLBrace | TRBrace | TColon | TComma | TStr string | TInt int | TBad | TOther

definition is_ws :: "char \<Rightarrow> bool" where
  "is_ws c = (c = CHR '' '' \<or> (of_char c :: nat) = 9 \<or> (of_char c :: nat) = 10 \<or> (of_char c :: nat) = 13)"

definition unescape :: "char \<Rightarrow> char option" where
  "unescape e =
     (if e = DQ then Some DQ
      else if e = BSL then Some BSL
      else if e = CHR ''/'' then Some (CHR ''/'')
      else if e = CHR ''b'' then Some (char_of (8::nat))
      else if e = CHR ''f'' then Some (char_of (12::nat))
      else if e = CHR ''n'' then Some (char_of (10::nat))
      else if e = CHR ''r'' then Some (char_of (13::nat))
      else if e = CHR ''t'' then Some (char_of (9::nat))
      else None)"

text \<open>
  The body of a string after its opening quote: the decoded text and the number of
  characters read, closing quote included. A raw control character is an error.
\<close>

fun scan_str :: "string \<Rightarrow> (string \<times> nat) parse" where
  "scan_str [] = Malformed"
| "scan_str (c # cs) =
     (if c = DQ then Parsed ([], 1)
      else if c = BSL then
        (case cs of
           [] \<Rightarrow> Malformed
         | e # cs' \<Rightarrow>
             (case unescape e of
                None \<Rightarrow> if e = CHR ''u'' then Unmodelled else Malformed
              | Some d \<Rightarrow>
                  (case scan_str cs' of
                     Parsed (s, n) \<Rightarrow> Parsed (d # s, n + 2)
                   | Malformed \<Rightarrow> Malformed
                   | Unmodelled \<Rightarrow> Unmodelled)))
      else if (of_char c :: nat) < 32 then Malformed
      else
        (case scan_str cs of
           Parsed (s, n) \<Rightarrow> Parsed (c # s, n + 1)
         | Malformed \<Rightarrow> Malformed
         | Unmodelled \<Rightarrow> Unmodelled))"

text \<open>The integer part of a JSON number: a single zero, or digits not led by zero.\<close>

definition int_part :: "string \<Rightarrow> string" where
  "int_part s =
     (case takeWhile is_digit s of
        [] \<Rightarrow> []
      | d # ds \<Rightarrow> if d = CHR ''0'' then [d] else d # ds)"

text \<open>
  The tokens of a document. A number with a fraction or an exponent,
  \<open>-Infinity\<close> and every other literal are values outside the fragment
  (\<open>TOther\<close>); a minus sign followed by anything else is an error (\<open>TBad\<close>).
\<close>

function lex :: "string \<Rightarrow> token list" where
  "lex [] = []"
| "lex (c # s) =
     (if is_ws c then lex s
      else if c = CHR ''{'' then TLBrace # lex s
      else if c = CHR ''}'' then TRBrace # lex s
      else if c = CHR '':'' then TColon # lex s
      else if c = CHR '','' then TComma # lex s
      else if c = DQ then
        (case scan_str s of
           Parsed (k, n) \<Rightarrow> TStr k # lex (drop n s)
         | Malformed \<Rightarrow> [TBad]
         | Unmodelled \<Rightarrow> [TOther])
      else if c = CHR ''-'' then
        (if int_part s = [] then (if prefix ''Infinity'' s then [TOther] else [TBad])
         else if s \<noteq> [] \<and> drop (length (int_part s)) s \<noteq> []
                 \<and> hd (drop (length (int_part s)) s) \<in> set ''.eE'' then [TOther]
         else TInt (- int (nat_of_digits (int_part s))) # lex (drop (length (int_part s)) s))
      else if is_digit c then
        (if drop (length (int_part (c # s)) - 1) s \<noteq> []
            \<and> hd (drop (length (int_part (c # s)) - 1) s) \<in> set ''.eE'' then [TOther]
         else TInt (int (nat_of_digits (int_part (c # s)))) # lex (drop (length (int_part (c # s)) - 1) s))
      else [TOther])"
  by pat_completeness auto
termination
  by (relation "measure length") auto

declare lex.simps [simp del]

fun parse_members :: "token list \<Rightarrow> (string \<times> int) list \<Rightarrow> (string \<times> int) list parse" where
  "parse_members [] d = Malformed"
| "parse_members (t # ts) d =
     (case t of
        TStr k \<Rightarrow>
          (case ts of
             TColon # ts1 \<Rightarrow>
               (case ts1 of
                  TInt v # ts2 \<Rightarrow>
                    (case ts2 of
                       TComma # ts3 \<Rightarrow> parse_members ts3 (dict_set k v d)
                     | TRBrace # ts3 \<Rightarrow> if ts3 = [] then Parsed (dict_set k v d) else Malformed
                     | _ \<Rightarrow> Malformed)
                | TStr s # ts2 \<Rightarrow> Unmodelled
                | TLBrace # ts2 \<Rightarrow> Unmodelled
                | TOther # ts2 \<Rightarrow> Unmodelled
                | _ \<Rightarrow> Malformed)
           | _ \<Rightarrow> Malformed)
      | TOther \<Rightarrow> Unmodelled
      | _ \<Rightarrow> Malformed)"

definition parse_doc :: "token list \<Rightarrow> (string \<times> int) list parse" where
  "parse_doc toks =
     (case toks of
        TLBrace # TRBrace # ts \<Rightarrow> if ts = [] then Parsed [] else Malformed
      | TLBrace # ts \<Rightarrow> parse_members ts []
      | TStr k # ts \<Rightarrow> Unmodelled
      | TInt v # ts \<Rightarrow> Unmodelled
      | TOther # ts \<Rightarrow> Unmodelled
      | _ \<Rightarrow> Malformed)"

definition json_loads :: "string \<Rightarrow> (string \<times> int) list parse" where
  "json_loads s = parse_doc (lex s)"

subsection \<open>The seven checks\<close>

text \<open>
  What the run finds is a parameter: whether the model file exists, the content of
  \<open>class_indices.json\<close> if it exists, what importing each module raises, what
  loading the model raises or else \<open>input_shape[1]\<close> and the class count
  \<open>output_shape[-1]\<close>, what the bodies of the buzzer and camera checks raise, and
  what the inference raises or else the arg-max index. Reading and writing the
  label file itself succeed.
\<close>

record diag_env =
  model_file :: bool
  label_file :: "string option"
  import_result :: "string \<Rightarrow> exn option"
  load_model :: "exn + nat \<times> nat"
  buzzer_check :: "exn option"
  camera_check :: "exn option"
  predict :: "exn + nat"

datatype check =
  FilesCheck | DependencyCheck | ModelLoad | LabelMap | BuzzerCheck | CameraCheck
  | InferenceCheck | Summary

text \<open>
  How the run ends: it reaches the last line, it calls \<open>sys.exit\<close>, an exception
  reaches the top level, or it reads a label file outside the modelled fragment.
\<close>

datatype ending = Completed | SysExit int | Uncaught exn | NotModelled

record diag =
  executed :: "check list"
  failed :: "check list"
  class_indices :: "(string \<times> int) list option"
  label_file_now :: "string option"
  ending :: ending

definition begin_check :: "check \<Rightarrow> diag \<Rightarrow> diag" where
  "begin_check c s = s\<lparr>executed := executed s @ [c]\<rparr>"

definition report_fail :: "check \<Rightarrow> diag \<Rightarrow> diag" where
  "report_fail c s = s\<lparr>failed := failed s @ [c]\<rparr>"

definition summary :: "diag \<Rightarrow> diag" where
  "summary s = begin_check Summary s"

definition test_inference :: "diag_env \<Rightarrow> (int \<times> string) list \<Rightarrow> diag \<Rightarrow> diag" where
  "test_inference env index_to_class s =
     (case predict env of
        Inl e \<Rightarrow>
          if is_Exception e then summary (report_fail InferenceCheck (begin_check InferenceCheck s))
          else (begin_check InferenceCheck s)\<lparr>ending := Uncaught e\<rparr>
      | Inr predicted_index \<Rightarrow>
          (case map_of index_to_class (int predicted_index) of
             None \<Rightarrow> summary (report_fail InferenceCheck (begin_check InferenceCheck s))
           | Some predicted_class \<Rightarrow> summary (begin_check InferenceCheck s)))"

definition test_camera :: "diag_env \<Rightarrow> (int \<times> string) list \<Rightarrow> diag \<Rightarrow> diag" where
  "test_camera env index_to_class s =
     (case camera_check env of
        None \<Rightarrow> test_inference env index_to_class (begin_check CameraCheck s)
      | Some e \<Rightarrow>
          if is_Exception e
          then test_inference env index_to_class (report_fail CameraCheck (begin_check CameraCheck s))
          else (begin_check CameraCheck s)\<lparr>ending := Uncaught e\<rparr>)"

definition test_buzzer :: "diag_env \<Rightarrow> (int \<times> string) list \<Rightarrow> diag \<Rightarrow> diag" where
  "test_buzzer env index_to_class s =
     (case buzzer_check env of
        None \<Rightarrow> test_camera env index_to_class (begin_check BuzzerCheck s)
      | Some e \<Rightarrow>
          if is_Exception e
          then test_camera env index_to_class (report_fail BuzzerCheck (begin_check BuzzerCheck s))
          else (begin_check BuzzerCheck s)\<lparr>ending := Uncaught e\<rparr>)"

text \<open>
  \<open>index_to_class = {v: k for k, v in class_indices.items()}\<close>, outside every
  \<open>try\<close>: on \<open>None\<close> the attribute lookup raises.
\<close>

definition build_index_to_class :: "diag_env \<Rightarrow> diag \<Rightarrow> diag" where
  "build_index_to_class env s =
     (case class_indices s of
        None \<Rightarrow> s\<lparr>ending := Uncaught AttributeError\<rparr>
      | Some d \<Rightarrow> test_buzzer env (dict_of (map (\<lambda>(k, v). (v, k)) d)) s)"

definition default_class_indices :: "nat \<Rightarrow> (string \<times> int) list" where
  "default_class_indices num_classes =
     (if num_classes = 2 then [(''dang'', 0), (''ndan'', 1)]
      else dict_of (map (\<lambda>i. (''class_'' @ str_nat i, int i)) [0..<num_classes]))"

definition test_class_indices :: "diag_env \<Rightarrow> nat \<Rightarrow> diag \<Rightarrow> diag" where
  "test_class_indices env num_classes s =
     (case label_file env of
        Some content \<Rightarrow>
          (case json_loads content of
             Parsed d \<Rightarrow> build_index_to_class env ((begin_check LabelMap s)\<lparr>class_indices := Some d\<rparr>)
           | Malformed \<Rightarrow>
               build_index_to_class env
                 ((report_fail LabelMap (begin_check LabelMap s))\<lparr>class_indices := None\<rparr>)
           | Unmodelled \<Rightarrow> (begin_check LabelMap s)\<lparr>ending := NotModelled\<rparr>)
      | None \<Rightarrow>
          build_index_to_class env
            ((begin_check LabelMap s)
               \<lparr>class_indices := Some (default_class_indices num_classes),
                label_file_now := Some (json_dumps (default_class_indices num_classes))\<rparr>))"

definition test_load_model :: "diag_env \<Rightarrow> diag \<Rightarrow> diag" where
  "test_load_model env s =
     (case load_model env of
        Inl e \<Rightarrow>
          if is_Exception e
          then (report_fail ModelLoad (begin_check ModelLoad s))\<lparr>ending := SysExit 1\<rparr>
          else (begin_check ModelLoad s)\<lparr>ending := Uncaught e\<rparr>
      | Inr (img_size, num_classes) \<Rightarrow> test_class_indices env num_classes (begin_check ModelLoad s))"

definition dependencies :: "string list" where
  "dependencies = [''numpy'', ''cv2'', ''tensorflow'', ''picamera2'', ''RPi.GPIO'']"

text \<open>The import loop: \<open>ImportError\<close> is collected, anything else is not caught.\<close>

fun missing_deps :: "(string \<Rightarrow> exn option) \<Rightarrow> string list \<Rightarrow> exn + string list" where
  "missing_deps imp [] = Inr []"
| "missing_deps imp (m # ms) =
     (case imp m of
        None \<Rightarrow> missing_deps imp ms
      | Some e \<Rightarrow>
          if e = ImportError
          then (case missing_deps imp ms of Inl e' \<Rightarrow> Inl e' | Inr rest \<Rightarrow> Inr (m # rest))
          else Inl e)"

definition test_dependencies :: "diag_env \<Rightarrow> diag \<Rightarrow> diag" where
  "test_dependencies env s =
     (case missing_deps (import_result env) dependencies of
        Inl e \<Rightarrow> (begin_check DependencyCheck s)\<lparr>ending := Uncaught e\<rparr>
      | Inr missing \<Rightarrow>
          if missing \<noteq> []
          then (report_fail DependencyCheck (begin_check DependencyCheck s))\<lparr>ending := SysExit 1\<rparr>
          else test_load_model env (begin_check DependencyCheck s))"

definition run_diagnostic :: "diag_env \<Rightarrow> diag" where
  "run_diagnostic env =
     (let s = \<lparr>executed = [FilesCheck], failed = [], class_indices = None,
                label_file_now = label_file env, ending = Completed\<rparr>
      in if \<not> model_file env then (report_fail FilesCheck s)\<lparr>ending := SysExit 1\<rparr>
         else test_dependencies env s)"

definition exit_code :: "ending \<Rightarrow> int option" where
  "exit_code e =
     (case e of
        Completed \<Rightarrow> Some 0
      | SysExit n \<Rightarrow> Some n
      | Uncaught x \<Rightarrow> Some (exit_status x)
      | NotModelled \<Rightarrow> None)"

text \<open>
  The tokens of the text that \<open>json_dumps\<close> writes for a non-empty dictionary,
  between the braces; and the characters that need no \<open>\u\<close> escape.
\<close>

fun member_tokens :: "(string \<times> int) list \<Rightarrow> token list" where
  "member_tokens [] = []"
| "member_tokens [kv] = [TStr (fst kv), TColon, TInt (snd kv)]"
| "member_tokens (kv # rest) = TStr (fst kv) # TColon # TInt (snd kv) # TComma # member_tokens rest"

definition printable :: "char \<Rightarrow> bool" where
  "printable c = (32 \<le> (of_char c :: nat) \<and> (of_char c :: nat) \<le> 126)"

text \<open>An environment for examples: everything is in place and every check passes.\<close>

definition healthy :: diag_env where
  "healthy =
     \<lparr>model_file = True, label_file = None, import_result = (\<lambda>m. None),
      load_model = Inr (224, 2), buzzer_check = None, camera_check = None, predict = Inr 0\<rparr>"




section \<open>Properties of the dataset collector\<close>

subsection \<open>What each operation leaves alone\<close>


lemma say_fields [simp]:
  "buzzer_class (say m w) = buzzer_class w" "dirs (say m w) = dirs w"
  "files (say m w) = files w" "clock (say m w) = clock w"
  "cam_started (say m w) = cam_started w" "cam_stopped (say m w) = cam_stopped w"
  "shots (say m w) = shots w" "console (say m w) = console w @ [m]"
  by (simp_all add: say_def)

lemma sleep_fields [simp]:
  "buzzer_class (snd (sleep cam d w)) = buzzer_class w" "dirs (snd (sleep cam d w)) = dirs w"
  "files (snd (sleep cam d w)) = files w" "cam_stopped (snd (sleep cam d w)) = cam_stopped w"
  "cam_started (snd (sleep cam d w)) = cam_started w"
  by (simp_all add: sleep_def split: option.splits)

lemma cam_start_fields [simp]:
  "buzzer_class (snd (cam_start cam w)) = buzzer_class w" "dirs (snd (cam_start cam w)) = dirs w"
  "files (snd (cam_start cam w)) = files w" "cam_stopped (snd (cam_start cam w)) = cam_stopped w"
  by (simp_all add: cam_start_def)

lemma cam_stop_fields [simp]:
  "buzzer_class (snd (cam_stop cam w)) = buzzer_class w" "dirs (snd (cam_stop cam w)) = dirs w"
  "files (snd (cam_stop cam w)) = files w" "cam_stopped (snd (cam_stop cam w)) = Suc (cam_stopped w)"
  by (simp_all add: cam_stop_def)

lemma capture_loop_keeps:
  "buzzer_class (snd (snd (capture_loop cam st du iv fns w))) = buzzer_class w \<and>
   dirs (snd (snd (capture_loop cam st du iv fns w))) = dirs w \<and>
   cam_stopped (snd (snd (capture_loop cam st du iv fns w))) = cam_stopped w"
proof (induction cam st du iv fns w rule: capture_loop.induct)
  case (1 cam st du iv fns w)
  show ?case
  proof (cases "clock w - st < du")
    case False
    then show ?thesis by (simp add: capture_loop.simps [of cam st du iv fns w])
  next
    case True
    show ?thesis
    proof (cases "on_capture cam (shots w)")
      case (CaptureRaises e)
      with True show ?thesis by (simp add: capture_loop.simps [of cam st du iv fns w])
    next
      case (Captured lat)
      let ?fn = "''capture_'' @ stamp cam (clock w) @ ''.jpg''"
      let ?w2 = "say (CapturedImage (Suc (length fns)) ?fn)
                   (w\<lparr>shots := Suc (shots w),
                      files := filter (\<lambda>f. f \<noteq> ?fn) (files w) @ [?fn],
                      clock := clock w + Suc lat\<rparr>)"
      obtain r w' where s: "sleep cam iv ?w2 = (r, w')" by (cases "sleep cam iv ?w2")
      have w': "w' = snd (sleep cam iv ?w2)" using s by simp
      have k: "buzzer_class w' = buzzer_class w" "dirs w' = dirs w" "cam_stopped w' = cam_stopped w"
        unfolding w' by simp_all
      show ?thesis
      proof (cases r)
        case None
        from "1.IH" [OF True refl Captured s [unfolded None, symmetric] refl] 
        show ?thesis using True Captured s None k
          by (simp add: capture_loop.simps [of cam st du iv fns w])
      next
        case (Some e)
        then show ?thesis using True Captured s k
          by (simp add: capture_loop.simps [of cam st du iv fns w])
      qed
    qed
  qed
qed


lemma makedirs_keeps:
  assumes "makedirs cam p w = Inr w'"
  shows "buzzer_class w' = buzzer_class w" "files w' = files w"
    "cam_stopped w' = cam_stopped w" "console w' = console w"
    "set (dirs w) \<subseteq> set (dirs w')" "p \<in> set (dirs w')"
  using assms by (auto simp: makedirs_def path_exists_def split: option.splits if_splits)

lemma make_class_dir_keeps:
  assumes "make_class_dir cam cd w = Inr w'"
  shows "buzzer_class w' = buzzer_class w" "files w' = files w"
    "set (dirs w) \<subseteq> set (dirs w')" "path_exists cd w'"
proof -
  have a: "buzzer_class w' = buzzer_class w \<and> files w' = files w \<and>
      set (dirs w) \<subseteq> set (dirs w') \<and> path_exists cd w'"
  proof (cases "path_exists cd w")
    case True
    then show ?thesis using assms by (simp add: make_class_dir_def)
  next
    case False
    then obtain w1 where m: "makedirs cam cd w = Inr w1" and w': "w' = say (CreatedFolder cd) w1"
      using assms by (auto simp: make_class_dir_def split: sum.splits)
    from makedirs_keeps [OF m]
    show ?thesis unfolding w' by (simp add: path_exists_def isdir_def)
  qed
  from a show "buzzer_class w' = buzzer_class w" "files w' = files w"
    "set (dirs w) \<subseteq> set (dirs w')" "path_exists cd w'" by simp_all
qed

lemma burst_keeps:
  "buzzer_class (snd (burst cam du iv w)) = buzzer_class w \<and>
   dirs (snd (burst cam du iv w)) = dirs w \<and>
   cam_stopped (snd (burst cam du iv w)) = Suc (cam_stopped w)"
proof -
  obtain p fns w1 where l: "capture_loop cam (clock w) du iv [] w = (p, fns, w1)"
    by (cases "capture_loop cam (clock w) du iv [] w")
  have w1: "w1 = snd (snd (capture_loop cam (clock w) du iv [] w))" using l by simp
  have k: "buzzer_class w1 = buzzer_class w" "dirs w1 = dirs w" "cam_stopped w1 = cam_stopped w"
    unfolding w1 using capture_loop_keeps [of cam "clock w" du iv "[]" w] by simp_all
  obtain r w2 where c: "cam_stop cam w1 = (r, w2)" by (cases "cam_stop cam w1")
  have w2: "w2 = snd (cam_stop cam w1)" using c by simp
  have k2: "buzzer_class w2 = buzzer_class w" "dirs w2 = dirs w" "cam_stopped w2 = Suc (cam_stopped w)"
    unfolding w2 using k by simp_all
  show ?thesis
    unfolding burst_def l using c k2 by (simp split: option.splits)
qed

lemma warm_up_keeps:
  "buzzer_class (snd (warm_up cam du w)) = buzzer_class w \<and>
   dirs (snd (warm_up cam du w)) = dirs w \<and>
   cam_stopped (snd (warm_up cam du w)) = cam_stopped w"
proof -
  let ?w0 = "say (BurstStart du) w"
  obtain r1 w1 where a: "sleep cam 2000 ?w0 = (r1, w1)" by (cases "sleep cam 2000 ?w0")
  have w1: "w1 = snd (sleep cam 2000 ?w0)" using a by simp
  obtain r2 w2 where b: "cam_start cam w1 = (r2, w2)" by (cases "cam_start cam w1")
  have w2: "w2 = snd (cam_start cam w1)" using b by simp
  obtain r3 w3 where c: "sleep cam 1000 w2 = (r3, w3)" by (cases "sleep cam 1000 w2")
  have w3: "w3 = snd (sleep cam 1000 w2)" using c by simp
  have k1: "buzzer_class w1 = buzzer_class w" "dirs w1 = dirs w" "cam_stopped w1 = cam_stopped w"
    unfolding w1 by simp_all
  have k2: "buzzer_class w2 = buzzer_class w" "dirs w2 = dirs w" "cam_stopped w2 = cam_stopped w"
    unfolding w2 using k1 by simp_all
  have k3: "buzzer_class w3 = buzzer_class w" "dirs w3 = dirs w" "cam_stopped w3 = cam_stopped w"
    unfolding w3 using k2 by simp_all
  show ?thesis
    unfolding warm_up_def a using b c k1 k2 k3 by (simp split: option.splits)
qed

lemma take_photos_continuous_keeps:
  "buzzer_class (snd (take_photos_continuous cam c f du iv w)) = buzzer_class w \<and>
   dirs (snd (take_photos_continuous cam c f du iv w)) = dirs w"
proof -
  obtain r w1 where a: "warm_up cam du w = (r, w1)" by (cases "warm_up cam du w")
  have w1: "w1 = snd (warm_up cam du w)" using a by simp
  have k: "buzzer_class w1 = buzzer_class w" "dirs w1 = dirs w"
    unfolding w1 using warm_up_keeps [of cam du w] by simp_all
  show ?thesis
    unfolding take_photos_continuous_def a using k burst_keeps [of cam du iv w1]
    by (simp split: option.splits)
qed

lemma move_keeps:
  "move cam src dst w = Inr w' \<Longrightarrow> buzzer_class w' = buzzer_class w \<and> dirs w' = dirs w"
  by (auto simp: move_def split: if_splits option.splits)

lemma move_files_keeps:
  "buzzer_class (snd (move_files cam c f fns w)) = buzzer_class w \<and>
   dirs (snd (move_files cam c f fns w)) = dirs w"
proof (induction fns arbitrary: w)
  case Nil
  show ?case by simp
next
  case (Cons fname rest)
  show ?case
  proof (cases "move cam fname (dest c f fname) w")
    case (Inl e)
    then show ?thesis by simp
  next
    case (Inr w')
    from move_keeps [OF Inr] Cons [of w'] Inr show ?thesis by simp
  qed
qed

text \<open>The shape of a call of \<open>capture_images\<close> whose class directory is in place.\<close>

lemma capture_images_unfold:
  assumes "c \<noteq> []" and "make_class_dir cam (class_dir c (flag (buzzer_class w) c)) w = Inr w1"
    and "take_photos_continuous cam c (flag (buzzer_class w) c) 5000 500 w1 = (r, w2)"
  shows "capture_images cam c w =
     (case r of Inl e \<Rightarrow> (Some e, w2)
      | Inr filenames \<Rightarrow>
          (case move_files cam c (flag (buzzer_class w) c) filenames w2 of
             (Some e, w3) \<Rightarrow> (Some e, w3)
           | (None, w3) \<Rightarrow>
               (None, say (FlagLine (flag (buzzer_class w) c))
                  (say (Saved (length filenames) (class_dir c (flag (buzzer_class w) c))) w3))))"
  using assms unfolding capture_images_def by (simp split: sum.splits)

lemma capture_images_keeps:
  "buzzer_class (snd (capture_images cam c w)) = buzzer_class w \<and>
   set (dirs w) \<subseteq> set (dirs (snd (capture_images cam c w)))"
proof (cases "c = []")
  case True
  then show ?thesis by (simp add: capture_images_def)
next
  case False
  define fl where "fl = flag (buzzer_class w) c"
  show ?thesis
  proof (cases "make_class_dir cam (class_dir c fl) w")
    case (Inl e)
    then show ?thesis using False unfolding capture_images_def fl_def by simp
  next
    case (Inr w1)
    have k1: "buzzer_class w1 = buzzer_class w" "set (dirs w) \<subseteq> set (dirs w1)"
      using make_class_dir_keeps [OF Inr] by simp_all
    obtain r w2 where t: "take_photos_continuous cam c fl 5000 500 w1 = (r, w2)"
      by (cases "take_photos_continuous cam c fl 5000 500 w1")
    have w2: "w2 = snd (take_photos_continuous cam c fl 5000 500 w1)" using t by simp
    have k2: "buzzer_class w2 = buzzer_class w" "set (dirs w) \<subseteq> set (dirs w2)"
      unfolding w2 using k1 take_photos_continuous_keeps [of cam c fl 5000 500 w1] by simp_all
    note c = capture_images_unfold [OF False Inr [unfolded fl_def] t [unfolded fl_def],
        folded fl_def]
    show ?thesis
    proof (cases r)
      case (Inl e)
      then show ?thesis unfolding c using k2 by simp
    next
      case (Inr fns)
      obtain r3 w3 where m: "move_files cam c fl fns w2 = (r3, w3)"
        by (cases "move_files cam c fl fns w2")
      have w3: "w3 = snd (move_files cam c fl fns w2)" using m by simp
      have k3: "buzzer_class w3 = buzzer_class w" "set (dirs w) \<subseteq> set (dirs w3)"
        unfolding w3 using k2 move_files_keeps [of cam c fl fns w2] by simp_all
      show ?thesis unfolding c Inr using m k3 by (simp split: option.splits)
    qed
  qed
qed


lemma census_keeps:
  "buzzer_class (snd (census fs t w)) = buzzer_class w"
proof (induction fs arbitrary: t w)
  case Nil
  show ?case by simp
next
  case (Cons folder rest)
  show ?case
  proof (cases "listdir (path_join DATA_DIR folder) w")
    case (Inl e)
    then show ?thesis by simp
  next
    case (Inr names)
    then show ?thesis using Cons by (simp add: Let_def)
  qed
qed

lemma list_captured_data_keeps:
  "buzzer_class (snd (list_captured_data w)) = buzzer_class w"
  unfolding list_captured_data_def Let_def
  by (simp add: census_keeps split: sum.splits)

lemma preview_camera_keeps:
  "buzzer_class (snd (preview_camera cam w)) = buzzer_class w"
proof -
  let ?w0 = "say PreviewStart w"
  obtain r1 w1 where a: "cam_start cam ?w0 = (r1, w1)" by (cases "cam_start cam ?w0")
  have w1: "w1 = snd (cam_start cam ?w0)" using a by simp
  obtain r2 w2 where b: "sleep cam 2000 w1 = (r2, w2)" by (cases "sleep cam 2000 w1")
  have w2: "w2 = snd (sleep cam 2000 w1)" using b by simp
  obtain r3 w3 where c: "cam_stop cam w2 = (r3, w3)" by (cases "cam_stop cam w2")
  have w3: "w3 = snd (cam_stop cam w2)" using c by simp
  have k: "buzzer_class w1 = buzzer_class w" "buzzer_class w2 = buzzer_class w"
    "buzzer_class w3 = buzzer_class w"
    unfolding w3 w2 w1 by simp_all
  show ?thesis
    unfolding preview_camera_def a using b c k by (simp split: option.splits)
qed

lemma view_buzzer_class_keeps: "buzzer_class (view_buzzer_class w) = buzzer_class w"
  by (simp add: view_buzzer_class_def split: option.splits)

lemma flag_class_ok: "flag_state_ok w \<Longrightarrow> flag_state_ok (flag_class c w)"
  by (simp add: flag_class_def flag_state_ok_def)

lemma flag_state_ok_cong: "buzzer_class w' = buzzer_class w \<Longrightarrow> flag_state_ok w' = flag_state_ok w"
  by (simp add: flag_state_ok_def)

lemma main_loop_ok: "flag_state_ok w \<Longrightarrow> flag_state_ok (snd (main_loop cam ins w))"
proof (induction cam ins w rule: main_loop.induct)
  case (1 cam w)
  then show ?case by (simp add: flag_state_ok_def)
next
  case (2 cam ins w)
  then show ?case by (simp add: flag_state_ok_def)
next
  case (3 cam l ins w)
  have m: "flag_state_ok (say Menu w)" using "3.prems" by (simp add: flag_state_ok_def)
  consider (c1) "strip l = ''1''" | (c2) "strip l = ''2''" | (c3) "strip l = ''3''"
    | (c4) "strip l = ''4''" | (c5) "strip l = ''5''" | (c6) "strip l = ''6''"
    | (other) "strip l \<noteq> ''1''" "strip l \<noteq> ''2''" "strip l \<noteq> ''3''" "strip l \<noteq> ''4''"
        "strip l \<noteq> ''5''" "strip l \<noteq> ''6''"
    by blast
  then show ?case
  proof cases
    case c1
    show ?thesis
    proof (cases ins)
      case Nil
      then show ?thesis using c1 m by simp
    next
      case (Cons i ins')
      show ?thesis
      proof (cases i)
        case Interrupt
        then show ?thesis using c1 Cons m by simp
      next
        case (Line c)
        show ?thesis
        proof (cases "strip c = []")
          case True
          have "flag_state_ok (say InvalidClassName (say Menu w))"
            using m by (simp add: flag_state_ok_def)
          from "3.IH"(2) [OF c1 Cons Line _ this] True
          show ?thesis using c1 Cons Line by simp
        next
          case False
          obtain r w' where ci: "capture_images cam (strip c) (say Menu w) = (r, w')"
            by (cases "capture_images cam (strip c) (say Menu w)")
          have w': "w' = snd (capture_images cam (strip c) (say Menu w))" using ci by simp
          have ok: "flag_state_ok w'"
            unfolding w' using capture_images_keeps [of cam "strip c" "say Menu w"] m
            by (simp add: flag_state_ok_def)
          show ?thesis
          proof (cases r)
            case None
            from "3.IH"(1) [OF c1 Cons Line False ci [unfolded None, symmetric] refl ok]
            show ?thesis using c1 Cons Line False ci None by simp
          next
            case (Some e)
            then show ?thesis using c1 Cons Line False ci ok by simp
          qed
        qed
      qed
    qed
  next
    case c2
    have n: "strip l \<noteq> ''1''" using c2 by simp
    show ?thesis
    proof (cases ins)
      case Nil
      then show ?thesis using c2 m by simp
    next
      case (Cons i ins')
      show ?thesis
      proof (cases i)
        case Interrupt
        then show ?thesis using c2 Cons m by simp
      next
        case (Line c)
        have "flag_state_ok (flag_class (strip c) (say Menu w))"
          using m by (rule flag_class_ok)
        from "3.IH"(3) [OF n c2 Cons Line this]
        show ?thesis using c2 Cons Line by simp
      qed
    qed
  next
    case c3
    have n: "strip l \<noteq> ''1''" "strip l \<noteq> ''2''" using c3 by simp_all
    have "flag_state_ok (view_buzzer_class (say Menu w))"
      using m by (simp add: flag_state_ok_def view_buzzer_class_keeps)
    from "3.IH"(4) [OF n c3 this]
    show ?thesis using c3 by simp
  next
    case c4
    have n: "strip l \<noteq> ''1''" "strip l \<noteq> ''2''" "strip l \<noteq> ''3''" using c4 by simp_all
    obtain r w' where ci: "list_captured_data (say Menu w) = (r, w')"
      by (cases "list_captured_data (say Menu w)")
    have w': "w' = snd (list_captured_data (say Menu w))" using ci by simp
    have ok: "flag_state_ok w'"
      unfolding w' using m by (simp add: flag_state_ok_def list_captured_data_keeps)
    show ?thesis
    proof (cases r)
      case None
      from "3.IH"(5) [OF n c4 ci [unfolded None, symmetric] refl ok]
      show ?thesis using c4 ci None by simp
    next
      case (Some e)
      then show ?thesis using c4 ci ok by simp
    qed
  next
    case c5
    have n: "strip l \<noteq> ''1''" "strip l \<noteq> ''2''" "strip l \<noteq> ''3''" "strip l \<noteq> ''4''"
      using c5 by simp_all
    obtain r w' where ci: "preview_camera cam (say Menu w) = (r, w')"
      by (cases "preview_camera cam (say Menu w)")
    have w': "w' = snd (preview_camera cam (say Menu w))" using ci by simp
    have ok: "flag_state_ok w'"
      unfolding w' using m by (simp add: flag_state_ok_def preview_camera_keeps)
    show ?thesis
    proof (cases r)
      case None
      from "3.IH"(6) [OF n c5 ci [unfolded None, symmetric] refl ok]
      show ?thesis using c5 ci None by simp
    next
      case (Some e)
      then show ?thesis using c5 ci ok by simp
    qed
  next
    case c6
    show ?thesis using c6 m by (simp add: flag_state_ok_def)
  next
    case other
    have "flag_state_ok (say InvalidChoice (say Menu w))"
      using m by (simp add: flag_state_ok_def)
    from "3.IH"(7) [OF other this]
    show ?thesis using other by simp
  qed
qed


text \<open>
  Claim C4 says that flagging a class twice is observably identical to flagging it
  once. It is not: the second call prints its confirmation line again, so the
  console after two calls differs from the console after one.
\<close>

theorem flag_class_twice_counterexample:
  "''wire'' \<noteq> []
   \<and> console (flag_class ''wire'' (initial [] [])) = [Flagged ''wire'']
   \<and> console (flag_class ''wire'' (flag_class ''wire'' (initial [] [])))
       = [Flagged ''wire'', Flagged ''wire'']
   \<and> flag_class ''wire'' (flag_class ''wire'' (initial [] [])) \<noteq> flag_class ''wire'' (initial [] [])"
  by (simp add: flag_class_def initial_def say_def)

text \<open>
  Claim C4, amended. For a non-empty class name \<open>C\<close>, flagging \<open>C\<close> twice leaves
  \<open>buzzer_class\<close> equal to \<open>C\<close>, the same slot as after one call, and the second
  call does nothing to the state but print its confirmation line again. For
  non-empty \<open>A\<close> and \<open>B\<close>, flagging \<open>A\<close> and then \<open>B\<close> leaves exactly \<open>B\<close>
  flagged, and \<open>A\<close> is no longer flagged when it differs from \<open>B\<close>.
\<close>

theorem flag_class_idempotent_and_replacing:
  assumes "C \<noteq> []" and "A \<noteq> []" and "B \<noteq> []"
  shows "buzzer_class (flag_class C (flag_class C w)) = Some C
       \<and> buzzer_class (flag_class C (flag_class C w)) = buzzer_class (flag_class C w)
       \<and> flag_class C (flag_class C w) = say (Flagged C) (flag_class C w)
       \<and> (\<forall>c. flagged (flag_class B (flag_class A w)) c \<longleftrightarrow> c = B)
       \<and> (A \<noteq> B \<longrightarrow> \<not> flagged (flag_class B (flag_class A w)) A)"
  using assms by (auto simp: flag_class_def flagged_def say_def)

theorem flag_class_idempotent_and_replacing_witness:
  "''wire'' \<noteq> [] \<and> ''pipe'' \<noteq> []
   \<and> buzzer_class (flag_class ''wire'' (flag_class ''wire'' (initial [] []))) = Some ''wire''
   \<and> flag_class ''wire'' (flag_class ''wire'' (initial [] []))
       = say (Flagged ''wire'') (flag_class ''wire'' (initial [] []))
   \<and> flagged (flag_class ''pipe'' (flag_class ''wire'' (initial [] []))) ''pipe''
   \<and> \<not> flagged (flag_class ''pipe'' (flag_class ''wire'' (initial [] []))) ''wire''"
proof -
  have h: "''wire'' \<noteq> []" "''pipe'' \<noteq> []" "''wire'' \<noteq> ''pipe''" by simp_all
  from flag_class_idempotent_and_replacing [OF h(1) h(1) h(2), of "initial [] []"] h
  show ?thesis by blast
qed

lemma ensure_data_dir_keeps: "buzzer_class (snd (ensure_data_dir cam w)) = buzzer_class w"
proof (cases "makedirs cam DATA_DIR w")
  case (Inl e)
  then show ?thesis by (simp add: ensure_data_dir_def)
next
  case (Inr w')
  from makedirs_keeps(1) [OF Inr] Inr show ?thesis by (simp add: ensure_data_dir_def)
qed

text \<open>
  Claim C8. \<open>buzzer_class\<close> is empty at the start of every run; capture, flag,
  inspect, census, preview and the whole menu loop keep it empty or a single
  non-empty class name; flagging with empty input leaves it as it was.
\<close>

theorem flag_state_invariant:
  "flag_state_ok (initial ds fs) \<and> buzzer_class (initial ds fs) = None
   \<and> (flag_state_ok w \<longrightarrow>
        flag_state_ok (snd (capture_images cam c w)) \<and> flag_state_ok (flag_class c w)
        \<and> flag_state_ok (view_buzzer_class w) \<and> flag_state_ok (snd (list_captured_data w))
        \<and> flag_state_ok (snd (preview_camera cam w)) \<and> flag_state_ok (snd (main cam ins w)))
   \<and> buzzer_class (flag_class [] w) = buzzer_class w"
proof -
  have i: "flag_state_ok (initial ds fs) \<and> buzzer_class (initial ds fs) = None"
    by (simp add: initial_def flag_state_ok_def)
  have e: "buzzer_class (flag_class [] w) = buzzer_class w"
    by (simp add: flag_class_def)
  have p: "flag_state_ok (snd (capture_images cam c w)) \<and> flag_state_ok (flag_class c w)
        \<and> flag_state_ok (view_buzzer_class w) \<and> flag_state_ok (snd (list_captured_data w))
        \<and> flag_state_ok (snd (preview_camera cam w)) \<and> flag_state_ok (snd (main cam ins w))"
    if ok: "flag_state_ok w"
  proof -
    have 1: "flag_state_ok (snd (capture_images cam c w))"
      using ok capture_images_keeps [of cam c w] by (simp add: flag_state_ok_def)
    have 2: "flag_state_ok (flag_class c w)" using ok by (rule flag_class_ok)
    have 3: "flag_state_ok (view_buzzer_class w)"
      using ok by (simp add: flag_state_ok_def view_buzzer_class_keeps)
    have 4: "flag_state_ok (snd (list_captured_data w))"
      using ok by (simp add: flag_state_ok_def list_captured_data_keeps)
    have 5: "flag_state_ok (snd (preview_camera cam w))"
      using ok by (simp add: flag_state_ok_def preview_camera_keeps)
    obtain r w0 where en: "ensure_data_dir cam w = (r, w0)" by (cases "ensure_data_dir cam w")
    have "buzzer_class w0 = buzzer_class w"
      using ensure_data_dir_keeps [of cam w] unfolding en by simp
    then have ok0: "flag_state_ok w0" using ok by (simp add: flag_state_ok_def)
    have 6: "flag_state_ok (snd (main cam ins w))"
    proof (cases r)
      case None
      then show ?thesis unfolding main_def en using main_loop_ok [OF ok0] by simp
    next
      case (Some e)
      then show ?thesis unfolding main_def en using ok0 by simp
    qed
    from 1 2 3 4 5 6 show ?thesis by blast
  qed
  from i e p show ?thesis by blast
qed

theorem flag_state_invariant_witness:
  "flag_state_ok (flag_class ''wire'' (initial [] []))
   \<and> flag_state_ok (flag_class ''pipe'' (flag_class ''wire'' (initial [] [])))
   \<and> flag_state_ok (snd (main example_camera [Line ''2'', Line ''wire'', Line ''3'', Line ''6'']
        (flag_class ''wire'' (initial [] []))))"
proof -
  have h: "flag_state_ok (flag_class ''wire'' (initial [] []))"
    by (simp add: flag_class_def initial_def flag_state_ok_def say_def)
  show ?thesis
    using h flag_state_invariant [of "[]" "[]" "flag_class ''wire'' (initial [] [])" example_camera "''pipe''"
      "[Line ''2'', Line ''wire'', Line ''3'', Line ''6'']"]
    by blast
qed




text \<open>
  Claim C9 asks for exit status 0 and a stopped camera. The guard of the last
  statement reads the name \<open>_name_\<close>, which nothing binds: every run ends there
  with \<open>NameError\<close> and status 1, before \<open>main()\<close> is called and outside the
  \<open>try\<close> whose \<open>finally\<close> stops the camera.
\<close>

theorem script_raises_NameError: "script cam ins w = (1, say (Traceback NameError) w)"
  by (simp add: script_def lookup_name_def module_names_def builtin_names_def exit_status_def)


lemma prefix_slash: "prefix ''/'' b \<longleftrightarrow> b \<noteq> [] \<and> hd b = CHR ''/''"
  by (cases b) auto

lemma suffix_slash: "suffix ''/'' a \<longleftrightarrow> a \<noteq> [] \<and> last a = CHR ''/''"
  by (cases a rule: rev_cases) auto

lemma path_join_plain:
  "a \<noteq> [] \<Longrightarrow> last a \<noteq> CHR ''/'' \<Longrightarrow> \<not> prefix ''/'' b \<Longrightarrow> path_join a b = a @ ''/'' @ b"
  by (simp add: path_join_def suffix_slash)

lemma not_prefix_slash: "C \<noteq> [] \<Longrightarrow> CHR ''/'' \<notin> set C \<Longrightarrow> \<not> prefix ''/'' (C @ r)"
  by (cases C) (auto simp: prefix_slash)

lemma class_dir_plain:
  assumes "C \<noteq> []" and "CHR ''/'' \<notin> set C"
  shows "class_dir C fl = DATA_DIR @ ''/'' @ C @ ''_'' @ fl"
  unfolding class_dir_def
  using path_join_plain [of DATA_DIR "C @ ''_'' @ fl"] not_prefix_slash [OF assms]
  by (simp add: DATA_DIR_def)

lemma flag_cases: "flag bc C = ''dang'' \<or> flag bc C = ''ndan''"
  by (simp add: flag_def)

lemma dest_plain:
  assumes "C \<noteq> []" and "CHR ''/'' \<notin> set C" and "fl = ''dang'' \<or> fl = ''ndan''"
  shows "dest C fl fname = class_dir C fl @ ''/'' @ C @ fl @ basename fname"
proof -
  have l: "last (class_dir C fl) \<noteq> CHR ''/''" "class_dir C fl \<noteq> []"
    using assms(3) unfolding class_dir_plain [OF assms(1,2)] by auto
  show ?thesis
    unfolding dest_def
    using path_join_plain [OF l(2) l(1), of "C @ fl @ basename fname"] not_prefix_slash [OF assms(1,2)]
    by simp
qed

lemma basename_no_slash: "CHR ''/'' \<notin> set (basename p)"
proof -
  have "CHR ''/'' \<notin> set (takeWhile (\<lambda>c. c \<noteq> CHR ''/'') (rev p))"
    using set_takeWhileD by fastforce
  then show ?thesis by (simp add: basename_def)
qed

lemma path_join_under:
  assumes "CHR ''/'' \<notin> set b"
  shows "prefix a (path_join a b)"
proof -
  have "\<not> prefix ''/'' b" using assms by (cases b) (auto simp: prefix_slash)
  then show ?thesis by (simp add: path_join_def)
qed

text \<open>Files: the loop adds only the names it returns.\<close>

lemma capture_loop_files:
  "set fns \<subseteq> set (fst (snd (capture_loop cam st du iv fns w))) \<and>
   set (files (snd (snd (capture_loop cam st du iv fns w))))
     \<subseteq> set (files w) \<union> set (fst (snd (capture_loop cam st du iv fns w)))"
proof (induction cam st du iv fns w rule: capture_loop.induct)
  case (1 cam st du iv fns w)
  show ?case
  proof (cases "clock w - st < du")
    case False
    then show ?thesis by (simp add: capture_loop.simps [of cam st du iv fns w])
  next
    case True
    show ?thesis
    proof (cases "on_capture cam (shots w)")
      case (CaptureRaises e)
      with True show ?thesis by (simp add: capture_loop.simps [of cam st du iv fns w])
    next
      case (Captured lat)
      let ?fn = "''capture_'' @ stamp cam (clock w) @ ''.jpg''"
      let ?w2 = "say (CapturedImage (Suc (length fns)) ?fn)
                   (w\<lparr>shots := Suc (shots w),
                      files := filter (\<lambda>f. f \<noteq> ?fn) (files w) @ [?fn],
                      clock := clock w + Suc lat\<rparr>)"
      obtain r w' where s: "sleep cam iv ?w2 = (r, w')" by (cases "sleep cam iv ?w2")
      have w': "w' = snd (sleep cam iv ?w2)" using s by simp
      have k: "set (files w') \<subseteq> set (files w) \<union> {?fn}"
        unfolding w' by auto
      have u: "capture_loop cam st du iv fns w =
           (case r of Some e \<Rightarrow> (Some e, fns @ [?fn], w')
            | None \<Rightarrow> capture_loop cam st du iv (fns @ [?fn]) w')"
        using True Captured s
        by (simp add: capture_loop.simps [of cam st du iv fns w] split: option.splits)
      show ?thesis
      proof (cases r)
        case None
        from "1.IH" [OF True refl Captured s [unfolded None, symmetric] refl]
        show ?thesis unfolding u None using k by auto
      next
        case (Some e)
        then show ?thesis unfolding u using k by auto
      qed
    qed
  qed
qed

text \<open>Every name the loop appends starts with \<open>capture_\<close>.\<close>

lemma capture_loop_names:
  "list_all (prefix ''capture_'') fns \<Longrightarrow>
   list_all (prefix ''capture_'') (fst (snd (capture_loop cam st du iv fns w)))"
proof (induction cam st du iv fns w rule: capture_loop.induct)
  case (1 cam st du iv fns w)
  show ?case
  proof (cases "clock w - st < du")
    case False
    then show ?thesis using "1.prems" by (simp add: capture_loop.simps [of cam st du iv fns w])
  next
    case True
    show ?thesis
    proof (cases "on_capture cam (shots w)")
      case (CaptureRaises e)
      with True show ?thesis using "1.prems"
        by (simp add: capture_loop.simps [of cam st du iv fns w])
    next
      case (Captured lat)
      let ?fn = "''capture_'' @ stamp cam (clock w) @ ''.jpg''"
      let ?w2 = "say (CapturedImage (Suc (length fns)) ?fn)
                   (w\<lparr>shots := Suc (shots w),
                      files := filter (\<lambda>f. f \<noteq> ?fn) (files w) @ [?fn],
                      clock := clock w + Suc lat\<rparr>)"
      obtain r w' where s: "sleep cam iv ?w2 = (r, w')" by (cases "sleep cam iv ?w2")
      have n: "list_all (prefix ''capture_'') (fns @ [?fn])" using "1.prems" by simp
      have u: "capture_loop cam st du iv fns w =
           (case r of Some e \<Rightarrow> (Some e, fns @ [?fn], w')
            | None \<Rightarrow> capture_loop cam st du iv (fns @ [?fn]) w')"
        using True Captured s
        by (simp add: capture_loop.simps [of cam st du iv fns w] split: option.splits)
      show ?thesis
      proof (cases r)
        case None
        from "1.IH" [OF True refl Captured s [unfolded None, symmetric] refl n]
        show ?thesis unfolding u None by simp
      next
        case (Some e)
        then show ?thesis unfolding u using n by simp
      qed
    qed
  qed
qed

text \<open>A loop that is entered and ends without an exception has captured a file.\<close>

lemma capture_loop_nonempty:
  assumes "clock w - st < du" and "fst (capture_loop cam st du iv fns w) = None"
  shows "fst (snd (capture_loop cam st du iv fns w)) \<noteq> []"
proof (cases "on_capture cam (shots w)")
  case (CaptureRaises e)
  with assms show ?thesis by (simp add: capture_loop.simps [of cam st du iv fns w])
next
  case (Captured lat)
  let ?fn = "''capture_'' @ stamp cam (clock w) @ ''.jpg''"
  let ?w2 = "say (CapturedImage (Suc (length fns)) ?fn)
               (w\<lparr>shots := Suc (shots w),
                  files := filter (\<lambda>f. f \<noteq> ?fn) (files w) @ [?fn],
                  clock := clock w + Suc lat\<rparr>)"
  obtain r w' where s: "sleep cam iv ?w2 = (r, w')" by (cases "sleep cam iv ?w2")
  have u: "capture_loop cam st du iv fns w =
       (case r of Some e \<Rightarrow> (Some e, fns @ [?fn], w')
        | None \<Rightarrow> capture_loop cam st du iv (fns @ [?fn]) w')"
    using assms(1) Captured s
    by (simp add: capture_loop.simps [of cam st du iv fns w] split: option.splits)
  show ?thesis
  proof (cases r)
    case None
    have "set (fns @ [?fn]) \<subseteq> set (fst (snd (capture_loop cam st du iv (fns @ [?fn]) w')))"
      using capture_loop_files [of "fns @ [?fn]" cam st du iv w'] by blast
    then show ?thesis unfolding u None by auto
  next
    case (Some e)
    then show ?thesis using assms(2) unfolding u by simp
  qed
qed

lemma burst_names:
  assumes "burst cam du iv w = (Inr fns, w')" and "0 < du"
  shows "fns \<noteq> [] \<and> list_all (prefix ''capture_'') fns"
proof -
  obtain p fs w1 where l: "capture_loop cam (clock w) du iv [] w = (p, fs, w1)"
    by (cases "capture_loop cam (clock w) du iv [] w")
  obtain r w2 where c: "cam_stop cam w1 = (r, w2)" by (cases "cam_stop cam w1")
  have e: "fns = fs \<and> p = None"
    using assms(1) unfolding burst_def l using c by (auto split: option.splits)
  have 1: "fs \<noteq> []"
    using capture_loop_nonempty [of w "clock w" du cam iv "[]"] assms(2) l e by simp
  have 2: "list_all (prefix ''capture_'') fs"
    using capture_loop_names [of "[]" cam "clock w" du iv w] l by simp
  from e 1 2 show ?thesis by simp
qed

lemma take_photos_continuous_names:
  assumes "take_photos_continuous cam c f du iv w = (Inr fns, w')" and "0 < du"
  shows "fns \<noteq> [] \<and> list_all (prefix ''capture_'') fns"
proof -
  obtain r w1 where a: "warm_up cam du w = (r, w1)" by (cases "warm_up cam du w")
  have "burst cam du iv w1 = (Inr fns, w')"
    using assms(1) unfolding take_photos_continuous_def a by (auto split: option.splits)
  from burst_names [OF this assms(2)] show ?thesis .
qed

text \<open>Directory names of the paths the script builds.\<close>

lemma dirname_join:
  assumes "x \<noteq> []" and "last x \<noteq> CHR ''/''" and "CHR ''/'' \<notin> set n"
  shows "dirname (x @ ''/'' @ n) = x"
proof -
  have a: "dropWhile (\<lambda>c. c \<noteq> CHR ''/'') (rev n @ CHR ''/'' # rev x) = CHR ''/'' # rev x"
    using assms(3) by (auto simp: dropWhile_append)
  have b: "dropWhile (\<lambda>c. c = CHR ''/'') (rev x) = rev x"
    using assms(1,2) by (cases x rule: rev_cases) auto
  show ?thesis
    unfolding dirname_def Let_def using a b assms(1) by simp
qed

lemma ancestors_join:
  assumes "x \<noteq> []" and "last x \<noteq> CHR ''/''" and "CHR ''/'' \<notin> set n"
  shows "ancestors (x @ ''/'' @ n) = x # ancestors x"
proof -
  have d: "dirname (x @ ''/'' @ n) = x" by (rule dirname_join [OF assms])
  show ?thesis
    by (subst ancestors.simps) (simp only: d Let_def, simp add: assms(1))
qed

lemma real_dst_dirs: "dirs v = dirs w \<Longrightarrow> real_dst src dst v = real_dst src dst w"
  by (simp add: real_dst_def isdir_def)

lemma real_dst_under:
  assumes "C \<noteq> []" and "CHR ''/'' \<notin> set C" and "fl = ''dang'' \<or> fl = ''ndan''"
  shows "prefix (class_dir C fl @ ''/'') (real_dst f (dest C fl f) v)"
    and "class_dir C fl \<in> set (ancestors (real_dst f (dest C fl f) v))"
    and "DATA_DIR \<in> set (ancestors (real_dst f (dest C fl f) v))"
proof -
  define cd where "cd = class_dir C fl"
  define n where "n = C @ fl @ basename f"
  have cd: "cd = DATA_DIR @ ''/'' @ C @ ''_'' @ fl"
    unfolding cd_def by (rule class_dir_plain [OF assms(1,2)])
  have cdl: "cd \<noteq> []" "last cd \<noteq> CHR ''/''" using assms(3) unfolding cd by auto
  have d: "dest C fl f = cd @ ''/'' @ n"
    unfolding cd_def n_def by (rule dest_plain [OF assms])
  have n: "CHR ''/'' \<notin> set n" "n \<noteq> []"
    unfolding n_def using assms basename_no_slash [of f] by auto
  have "last n \<noteq> CHR ''/''" using n by (metis last_in_set)
  then have dl: "dest C fl f \<noteq> []" "last (dest C fl f) \<noteq> CHR ''/''"
    unfolding d using n(2) by simp_all
  have a0: "ancestors cd = DATA_DIR # ancestors DATA_DIR"
    unfolding cd using ancestors_join [of DATA_DIR "C @ ''_'' @ fl"] assms
    by (auto simp: DATA_DIR_def)
  have a1: "ancestors (dest C fl f) = cd # ancestors cd"
    unfolding d by (rule ancestors_join [OF cdl n(1)])
  have b: "CHR ''/'' \<notin> set (basename f)" by (rule basename_no_slash)
  then have nb: "\<not> prefix ''/'' (basename f)" by (cases "basename f") (auto simp: prefix_slash)
  have j: "path_join (dest C fl f) (basename f) = dest C fl f @ ''/'' @ basename f"
    by (rule path_join_plain [OF dl nb])
  have a2: "ancestors (path_join (dest C fl f) (basename f)) = dest C fl f # ancestors (dest C fl f)"
    unfolding j by (rule ancestors_join [OF dl b])
  show "prefix (class_dir C fl @ ''/'') (real_dst f (dest C fl f) v)"
    unfolding real_dst_def j cd_def [symmetric] unfolding d by simp
  show "class_dir C fl \<in> set (ancestors (real_dst f (dest C fl f) v))"
    unfolding real_dst_def cd_def [symmetric] using a1 a2 by simp
  show "DATA_DIR \<in> set (ancestors (real_dst f (dest C fl f) v))"
    unfolding real_dst_def using a0 a1 a2 by simp
qed

lemma class_dir_not_capture:
  assumes "C \<noteq> []" and "CHR ''/'' \<notin> set C" and "prefix (class_dir C fl @ ''/'') p"
  shows "\<not> prefix ''capture_'' p"
proof -
  have "prefix ''.'' (class_dir C fl @ ''/'')"
    unfolding class_dir_plain [OF assms(1,2)] by (simp add: DATA_DIR_def)
  then have "prefix ''.'' p" using assms(3) by (rule prefix_order.trans)
  then show ?thesis by (auto simp: prefix_def)
qed

text \<open>What a successful \<open>shutil.move\<close> has done.\<close>

lemma move_done:
  assumes "move cam src dst w = Inr w'"
  shows "files w' = filter (\<lambda>f. f \<noteq> src \<and> f \<noteq> real_dst src dst w) (files w) @ [real_dst src dst w]"
    and "list_all (\<lambda>a. isdir a w) (ancestors (real_dst src dst w))"
    and "dirs w' = dirs w"
  using assms by (auto simp: move_def split: if_splits option.splits)

text \<open>Files: the moves take the captured files away and add files under the class
  directory only; what they have put there stays there.\<close>

lemma move_files_under:
  assumes u: "\<And>fname v. prefix pre (real_dst fname (dest C fl fname) v)"
  shows "move_files cam C fl fns w = (None, w') \<Longrightarrow>
         set (files w') \<subseteq> (set (files w) - set fns) \<union> {p. prefix pre p}"
proof (induction fns arbitrary: w)
  case Nil
  then show ?case by auto
next
  case (Cons fname rest)
  show ?case
  proof (cases "move cam fname (dest C fl fname) w")
    case (Inl e)
    with Cons.prems show ?thesis by simp
  next
    case (Inr w1)
    have r: "move_files cam C fl rest w1 = (None, w')" using Cons.prems Inr by simp
    have "set (files w1) \<subseteq> (set (files w) - {fname}) \<union> {p. prefix pre p}"
      unfolding move_done(1) [OF Inr] using u [of fname w] by auto
    with Cons.IH [OF r] show ?thesis by auto
  qed
qed

lemma move_files_stays:
  assumes u: "\<And>fname v. prefix pre (real_dst fname (dest C fl fname) v)"
    and n: "\<And>p. prefix pre p \<Longrightarrow> \<not> prefix ''capture_'' p"
  shows "move_files cam C fl fns w = (None, w') \<Longrightarrow> list_all (prefix ''capture_'') fns \<Longrightarrow>
         prefix pre p \<Longrightarrow> p \<in> set (files w) \<Longrightarrow> p \<in> set (files w')"
proof (induction fns arbitrary: w)
  case Nil
  then show ?case by simp
next
  case (Cons fname rest)
  show ?case
  proof (cases "move cam fname (dest C fl fname) w")
    case (Inl e)
    with Cons.prems show ?thesis by simp
  next
    case (Inr w1)
    have r: "move_files cam C fl rest w1 = (None, w')" using Cons.prems Inr by simp
    have c: "list_all (prefix ''capture_'') rest" "prefix ''capture_'' fname"
      using Cons.prems(2) by simp_all
    have "p \<noteq> fname" using n [OF Cons.prems(3)] c(2) by blast
    then have "p \<in> set (files w1)"
      unfolding move_done(1) [OF Inr] using Cons.prems(4) by auto
    from Cons.IH [OF r c(1) Cons.prems(3) this] show ?thesis .
  qed
qed

lemma move_files_placed:
  assumes u: "\<And>fname v. prefix pre (real_dst fname (dest C fl fname) v)"
    and n: "\<And>p. prefix pre p \<Longrightarrow> \<not> prefix ''capture_'' p"
  shows "move_files cam C fl fns w = (None, w') \<Longrightarrow> list_all (prefix ''capture_'') fns \<Longrightarrow>
         f \<in> set fns \<Longrightarrow> real_dst f (dest C fl f) w \<in> set (files w')"
proof (induction fns arbitrary: w)
  case Nil
  then show ?case by simp
next
  case (Cons fname rest)
  show ?case
  proof (cases "move cam fname (dest C fl fname) w")
    case (Inl e)
    with Cons.prems show ?thesis by simp
  next
    case (Inr w1)
    have r: "move_files cam C fl rest w1 = (None, w')" using Cons.prems Inr by simp
    have c: "list_all (prefix ''capture_'') rest" using Cons.prems(2) by simp
    have d: "dirs w1 = dirs w" by (rule move_done(3) [OF Inr])
    show ?thesis
    proof (cases "f \<in> set rest")
      case True
      from Cons.IH [OF r c True] show ?thesis unfolding real_dst_dirs [OF d] .
    next
      case False
      then have f: "f = fname" using Cons.prems(3) by simp
      have "real_dst f (dest C fl f) w \<in> set (files w1)"
        unfolding move_done(1) [OF Inr] f by simp
      from move_files_stays [OF u n r c u this] show ?thesis by blast
    qed
  qed
qed

lemma move_files_first:
  assumes "move_files cam C fl fns w = (None, w')" and "fns \<noteq> []"
  shows "list_all (\<lambda>a. isdir a w) (ancestors (real_dst (hd fns) (dest C fl (hd fns)) w))"
proof (cases fns)
  case Nil
  with assms(2) show ?thesis by simp
next
  case (Cons fname rest)
  show ?thesis
  proof (cases "move cam fname (dest C fl fname) w")
    case (Inl e)
    with assms(1) Cons show ?thesis by simp
  next
    case (Inr w1)
    from move_done(2) [OF Inr] Cons show ?thesis by simp
  qed
qed

lemma warm_up_files: "files (snd (warm_up cam du w)) = files w"
proof -
  let ?w0 = "say (BurstStart du) w"
  obtain r1 w1 where a: "sleep cam 2000 ?w0 = (r1, w1)" by (cases "sleep cam 2000 ?w0")
  have w1: "w1 = snd (sleep cam 2000 ?w0)" using a by simp
  obtain r2 w2 where b: "cam_start cam w1 = (r2, w2)" by (cases "cam_start cam w1")
  have w2: "w2 = snd (cam_start cam w1)" using b by simp
  obtain r3 w3 where c: "sleep cam 1000 w2 = (r3, w3)" by (cases "sleep cam 1000 w2")
  have w3: "w3 = snd (sleep cam 1000 w2)" using c by simp
  have k: "files w1 = files w" "files w2 = files w" "files w3 = files w"
    unfolding w3 w2 w1 by simp_all
  show ?thesis
    unfolding warm_up_def a using b c k by (simp split: option.splits)
qed

lemma burst_files:
  assumes "burst cam du iv w = (Inr fns, w')"
  shows "set (files w') \<subseteq> set (files w) \<union> set fns"
proof -
  obtain p fs w1 where l: "capture_loop cam (clock w) du iv [] w = (p, fs, w1)"
    by (cases "capture_loop cam (clock w) du iv [] w")
  have f1: "set (files w1) \<subseteq> set (files w) \<union> set fs"
    using capture_loop_files [of "[]" cam "clock w" du iv w] l by simp
  obtain r w2 where c: "cam_stop cam w1 = (r, w2)" by (cases "cam_stop cam w1")
  have w2: "w2 = snd (cam_stop cam w1)" using c by simp
  have f2: "files w2 = files w1" unfolding w2 by simp
  have "fns = fs \<and> files w' = files w2"
    using assms unfolding burst_def l using c by (auto split: option.splits)
  then show ?thesis using f1 f2 by simp
qed

lemma take_photos_continuous_files:
  assumes "take_photos_continuous cam c f du iv w = (Inr fns, w')"
  shows "set (files w') \<subseteq> set (files w) \<union> set fns"
proof -
  obtain r w1 where a: "warm_up cam du w = (r, w1)" by (cases "warm_up cam du w")
  have w1: "w1 = snd (warm_up cam du w)" using a by simp
  have k: "files w1 = files w" unfolding w1 by (rule warm_up_files)
  have "burst cam du iv w1 = (Inr fns, w')"
    using assms unfolding take_photos_continuous_def a by (auto split: option.splits)
  from burst_files [OF this] k show ?thesis by simp
qed


text \<open>A call of \<open>capture_images\<close> that returns without raising, step by step.\<close>

lemma capture_images_run:
  assumes "C \<noteq> []" and "capture_images cam C w = (None, w')"
  shows "\<exists>w1 fns w2 w3.
           make_class_dir cam (class_dir C (flag (buzzer_class w) C)) w = Inr w1
         \<and> take_photos_continuous cam C (flag (buzzer_class w) C) 5000 500 w1 = (Inr fns, w2)
         \<and> move_files cam C (flag (buzzer_class w) C) fns w2 = (None, w3)
         \<and> w' = say (FlagLine (flag (buzzer_class w) C))
                  (say (Saved (length fns) (class_dir C (flag (buzzer_class w) C))) w3)"
  using assms unfolding capture_images_def
  by (auto split: sum.splits prod.splits option.splits)

lemma capture_images_places:
  assumes C: "C \<noteq> []" "CHR ''/'' \<notin> set C"
    and run: "capture_images cam C w = (None, w')"
    and fl: "fl = flag (buzzer_class w) C"
  shows "isdir (class_dir C fl) w'" and "isdir DATA_DIR w'"
    and "\<exists>w1 fns w2.
           make_class_dir cam (class_dir C fl) w = Inr w1
         \<and> take_photos_continuous cam C fl 5000 500 w1 = (Inr fns, w2)
         \<and> fns \<noteq> []
         \<and> (\<forall>f \<in> set fns. f \<notin> set (files w')
               \<and> real_dst f (dest C fl f) w' \<in> set (files w')
               \<and> prefix (class_dir C fl @ ''/'') (real_dst f (dest C fl f) w'))"
    and "set (files w') \<subseteq> set (files w) \<union> {p. prefix (class_dir C fl @ ''/'') p}"
proof -
  from capture_images_run [OF C(1) run, folded fl]
  obtain w1 fns w2 w3 where
    m: "make_class_dir cam (class_dir C fl) w = Inr w1"
    and t: "take_photos_continuous cam C fl 5000 500 w1 = (Inr fns, w2)"
    and v: "move_files cam C fl fns w2 = (None, w3)"
    and w': "w' = say (FlagLine fl) (say (Saved (length fns) (class_dir C fl)) w3)"
    by blast
  have flc: "fl = ''dang'' \<or> fl = ''ndan''" unfolding fl by (rule flag_cases)
  note u = real_dst_under [OF C flc]
  have nc: "\<not> prefix ''capture_'' p" if "prefix (class_dir C fl @ ''/'') p" for p
    using class_dir_not_capture [OF C that] .
  have names: "fns \<noteq> []" "list_all (prefix ''capture_'') fns"
    using take_photos_continuous_names [OF t] by simp_all
  have d3: "dirs w3 = dirs w2"
    using move_files_keeps [of cam C fl fns w2] v by simp
  have d': "dirs w' = dirs w2" unfolding w' using d3 by simp
  have f': "files w' = files w3" unfolding w' by simp
  have a: "list_all (\<lambda>a. isdir a w2) (ancestors (real_dst (hd fns) (dest C fl (hd fns)) w2))"
    by (rule move_files_first [OF v names(1)])
  have i2: "isdir (class_dir C fl) w2" "isdir DATA_DIR w2"
    using a u(2,3) [of "hd fns" w2] by (auto simp: list_all_iff)
  show "isdir (class_dir C fl) w'" "isdir DATA_DIR w'"
    using i2 d' by (simp_all add: isdir_def)
  have f1: "files w1 = files w" by (rule make_class_dir_keeps(2) [OF m])
  have f2: "set (files w2) \<subseteq> set (files w) \<union> set fns"
    using take_photos_continuous_files [OF t] f1 by simp
  have f3: "set (files w3) \<subseteq> (set (files w2) - set fns) \<union> {p. prefix (class_dir C fl @ ''/'') p}"
    using move_files_under [of "class_dir C fl @ ''/''" C fl cam fns w2 w3] u(1) v by blast
  show "set (files w') \<subseteq> set (files w) \<union> {p. prefix (class_dir C fl @ ''/'') p}"
    unfolding f' using f2 f3 by blast
  have p: "f \<notin> set (files w') \<and> real_dst f (dest C fl f) w' \<in> set (files w')
         \<and> prefix (class_dir C fl @ ''/'') (real_dst f (dest C fl f) w')" if f: "f \<in> set fns" for f
  proof -
    have c: "prefix ''capture_'' f" using names(2) f by (simp add: list_all_iff)
    have 1: "f \<notin> set (files w')"
      unfolding f' using f3 f nc [of f] c by blast
    have "real_dst f (dest C fl f) w2 \<in> set (files w3)"
      using move_files_placed [of "class_dir C fl @ ''/''" C fl cam fns w2 w3 f] u(1) nc v names(2) f
      by blast
    then have 2: "real_dst f (dest C fl f) w' \<in> set (files w')"
      unfolding f' real_dst_dirs [OF d'] .
    from 1 2 u(1) show ?thesis by blast
  qed
  from m t names(1) p
  show "\<exists>w1 fns w2.
           make_class_dir cam (class_dir C fl) w = Inr w1
         \<and> take_photos_continuous cam C fl 5000 500 w1 = (Inr fns, w2)
         \<and> fns \<noteq> []
         \<and> (\<forall>f \<in> set fns. f \<notin> set (files w')
               \<and> real_dst f (dest C fl f) w' \<in> set (files w')
               \<and> prefix (class_dir C fl @ ''/'') (real_dst f (dest C fl f) w'))"
    by blast
qed

lemma class_dir_wire: "class_dir ''wire'' ''dang'' = ''./training_data/wire_dang''"
  by (simp add: class_dir_def path_join_def DATA_DIR_def suffix_to_prefix)

lemma make_class_dir_wire:
  "make_class_dir steady_camera ''./training_data/wire_dang'' wire_flagged =
     Inr \<lparr>buzzer_class = Some ''wire'', dirs = [''.'', ''./training_data'', ''./training_data/wire_dang''], files = [], clock = 0,
      cam_started = 0, cam_stopped = 0, shots = 0,
      console = [CreatedFolder ''./training_data/wire_dang'']\<rparr>"
  by (simp add: make_class_dir_def makedirs_def path_error_def path_exists_def isdir_def
      ancestors.simps dirname_def wire_flagged_def steady_camera_def say_def Let_def)

lemma warm_up_wire:
  "warm_up steady_camera 5000
     \<lparr>buzzer_class = Some ''wire'', dirs = [''.'', ''./training_data'', ''./training_data/wire_dang''], files = [], clock = 0,
      cam_started = 0, cam_stopped = 0, shots = 0,
      console = [CreatedFolder ''./training_data/wire_dang'']\<rparr> =
   (None,
     \<lparr>buzzer_class = Some ''wire'', dirs = [''.'', ''./training_data'', ''./training_data/wire_dang''], files = [], clock = 3000,
      cam_started = Suc 0, cam_stopped = 0, shots = 0,
      console = [CreatedFolder ''./training_data/wire_dang'', BurstStart 5000]\<rparr>)"
  by (simp add: warm_up_def sleep_def cam_start_def say_def steady_camera_def)

lemma capture_loop_wire:
  "capture_loop steady_camera 3000 5000 500 []
     \<lparr>buzzer_class = Some ''wire'', dirs = [''.'', ''./training_data'', ''./training_data/wire_dang''], files = [], clock = 3000,
      cam_started = Suc 0, cam_stopped = 0, shots = 0,
      console = [CreatedFolder ''./training_data/wire_dang'', BurstStart 5000]\<rparr> =
   (None, [''capture_1.jpg''],
     \<lparr>buzzer_class = Some ''wire'', dirs = [''.'', ''./training_data'', ''./training_data/wire_dang''], files = [''capture_1.jpg''], clock = 8500,
      cam_started = Suc 0, cam_stopped = 0, shots = Suc 0,
      console = [CreatedFolder ''./training_data/wire_dang'', BurstStart 5000, CapturedImage (Suc 0) ''capture_1.jpg'']\<rparr>)"
  apply (subst capture_loop.simps)
  apply (simp add: sleep_def say_def steady_camera_def Let_def)
  apply (subst capture_loop.simps)
  apply simp
  done

lemma take_photos_continuous_wire:
  "take_photos_continuous steady_camera ''wire'' ''dang'' 5000 500
     \<lparr>buzzer_class = Some ''wire'', dirs = [''.'', ''./training_data'', ''./training_data/wire_dang''], files = [], clock = 0,
      cam_started = 0, cam_stopped = 0, shots = 0,
      console = [CreatedFolder ''./training_data/wire_dang'']\<rparr> =
   (Inr [''capture_1.jpg''],
     \<lparr>buzzer_class = Some ''wire'', dirs = [''.'', ''./training_data'', ''./training_data/wire_dang''], files = [''capture_1.jpg''], clock = 8500,
      cam_started = Suc 0, cam_stopped = Suc 0, shots = Suc 0,
      console = [CreatedFolder ''./training_data/wire_dang'', BurstStart 5000, CapturedImage (Suc 0) ''capture_1.jpg'', CaptureComplete (Suc 0)]\<rparr>)"
  unfolding take_photos_continuous_def warm_up_wire
  apply (simp add: burst_def capture_loop_wire)
  apply (simp add: cam_stop_def say_def steady_camera_def)
  done

lemma dest_wire:
  "dest ''wire'' ''dang'' ''capture_1.jpg'' = ''./training_data/wire_dang/wiredangcapture_1.jpg''"
  by (simp add: dest_def class_dir_wire path_join_def basename_def suffix_to_prefix)

lemma ancestors_wire:
  "ancestors ''./training_data/wire_dang/wiredangcapture_1.jpg'' =
     [''./training_data/wire_dang'', ''./training_data'', ''.'']"
  by (simp add: ancestors.simps dirname_def Let_def)

lemma move_files_wire:
  "move_files steady_camera ''wire'' ''dang'' [''capture_1.jpg'']
     \<lparr>buzzer_class = Some ''wire'', dirs = [''.'', ''./training_data'', ''./training_data/wire_dang''], files = [''capture_1.jpg''], clock = 8500,
      cam_started = Suc 0, cam_stopped = Suc 0, shots = Suc 0,
      console = [CreatedFolder ''./training_data/wire_dang'', BurstStart 5000, CapturedImage (Suc 0) ''capture_1.jpg'', CaptureComplete (Suc 0)]\<rparr> =
   (None,
     \<lparr>buzzer_class = Some ''wire'', dirs = [''.'', ''./training_data'', ''./training_data/wire_dang''], files = [''./training_data/wire_dang/wiredangcapture_1.jpg''], clock = 8500,
      cam_started = Suc 0, cam_stopped = Suc 0, shots = Suc 0,
      console = [CreatedFolder ''./training_data/wire_dang'', BurstStart 5000, CapturedImage (Suc 0) ''capture_1.jpg'', CaptureComplete (Suc 0)]\<rparr>)"
  by (simp add: dest_wire move_def real_dst_def path_error_def ancestors_wire isdir_def
      path_exists_def steady_camera_def)

lemma capture_images_wire:
  "capture_images steady_camera ''wire'' wire_flagged =
   (None,
     \<lparr>buzzer_class = Some ''wire'', dirs = [''.'', ''./training_data'', ''./training_data/wire_dang''], files = [''./training_data/wire_dang/wiredangcapture_1.jpg''], clock = 8500,
      cam_started = Suc 0, cam_stopped = Suc 0, shots = Suc 0,
      console = [CreatedFolder ''./training_data/wire_dang'', BurstStart 5000, CapturedImage (Suc 0) ''capture_1.jpg'', CaptureComplete (Suc 0), Saved (Suc 0) ''./training_data/wire_dang'', FlagLine ''dang'']\<rparr>)"
proof -
  have f: "flag (buzzer_class wire_flagged) ''wire'' = ''dang''"
    by (simp add: flag_def wire_flagged_def)
  show ?thesis
    unfolding capture_images_def f class_dir_wire make_class_dir_wire
    by (simp add: say_def take_photos_continuous_wire move_files_wire del: move_files.simps)
qed

text \<open>
  Claim C1, for class names without a path separator. The flag is \<open>dang\<close> exactly
  when the class name equals \<open>buzzer_class\<close> at the moment of the call, and
  \<open>ndan\<close> otherwise. The directory is \<open>DATA_DIR/{C}_{flag}\<close> and every file of the
  burst is sent to \<open>{C}{flag}{basename}\<close> inside it. When the call returns without
  raising, that directory exists, the burst has captured at least one file, every
  captured file has left the working directory and lies where \<open>shutil.move\<close> puts
  it for that destination, under the class directory, and every file that was not
  there before the call lies under the class directory. A later \<open>flag_class\<close>
  changes neither directories nor files.
\<close>

theorem capture_images_flag_and_directory:
  assumes "C \<noteq> []" and "CHR ''/'' \<notin> set C"
  shows "(flag (buzzer_class w) C = ''dang'' \<longleftrightarrow> buzzer_class w = Some C)
       \<and> (buzzer_class w \<noteq> Some C \<longrightarrow> flag (buzzer_class w) C = ''ndan'')
       \<and> class_dir C (flag (buzzer_class w) C)
           = DATA_DIR @ ''/'' @ C @ ''_'' @ flag (buzzer_class w) C
       \<and> dest C (flag (buzzer_class w) C) fname
           = class_dir C (flag (buzzer_class w) C) @ ''/'' @ C @ flag (buzzer_class w) C
               @ basename fname
       \<and> (fst (capture_images cam C w) = None \<longrightarrow>
            isdir (class_dir C (flag (buzzer_class w) C)) (snd (capture_images cam C w))
          \<and> (\<exists>w1 fns w2.
                make_class_dir cam (class_dir C (flag (buzzer_class w) C)) w = Inr w1
              \<and> take_photos_continuous cam C (flag (buzzer_class w) C) 5000 500 w1 = (Inr fns, w2)
              \<and> fns \<noteq> []
              \<and> (\<forall>f \<in> set fns.
                    f \<notin> set (files (snd (capture_images cam C w)))
                  \<and> real_dst f (dest C (flag (buzzer_class w) C) f) (snd (capture_images cam C w))
                      \<in> set (files (snd (capture_images cam C w)))
                  \<and> prefix (class_dir C (flag (buzzer_class w) C) @ ''/'')
                      (real_dst f (dest C (flag (buzzer_class w) C) f)
                         (snd (capture_images cam C w)))))
          \<and> (\<forall>p \<in> set (files (snd (capture_images cam C w))).
               p \<in> set (files w) \<or> prefix (class_dir C (flag (buzzer_class w) C) @ ''/'') p))
       \<and> dirs (flag_class B (snd (capture_images cam C w))) = dirs (snd (capture_images cam C w))
       \<and> files (flag_class B (snd (capture_images cam C w))) = files (snd (capture_images cam C w))"
proof -
  have 1: "(flag (buzzer_class w) C = ''dang'' \<longleftrightarrow> buzzer_class w = Some C)
       \<and> (buzzer_class w \<noteq> Some C \<longrightarrow> flag (buzzer_class w) C = ''ndan'')"
    by (simp add: flag_def)
  note 2 = class_dir_plain [OF assms, of "flag (buzzer_class w) C"]
  note 3 = dest_plain [OF assms flag_cases, where fname = fname and bc1 = "buzzer_class w"]
  have 4: "fst (capture_images cam C w) = None \<longrightarrow>
            isdir (class_dir C (flag (buzzer_class w) C)) (snd (capture_images cam C w))
          \<and> (\<exists>w1 fns w2.
                make_class_dir cam (class_dir C (flag (buzzer_class w) C)) w = Inr w1
              \<and> take_photos_continuous cam C (flag (buzzer_class w) C) 5000 500 w1 = (Inr fns, w2)
              \<and> fns \<noteq> []
              \<and> (\<forall>f \<in> set fns.
                    f \<notin> set (files (snd (capture_images cam C w)))
                  \<and> real_dst f (dest C (flag (buzzer_class w) C) f) (snd (capture_images cam C w))
                      \<in> set (files (snd (capture_images cam C w)))
                  \<and> prefix (class_dir C (flag (buzzer_class w) C) @ ''/'')
                      (real_dst f (dest C (flag (buzzer_class w) C) f)
                         (snd (capture_images cam C w)))))
          \<and> (\<forall>p \<in> set (files (snd (capture_images cam C w))).
               p \<in> set (files w) \<or> prefix (class_dir C (flag (buzzer_class w) C) @ ''/'') p)"
  proof
    assume "fst (capture_images cam C w) = None"
    then have r: "capture_images cam C w = (None, snd (capture_images cam C w))"
      by (cases "capture_images cam C w") simp
    note p = capture_images_places [OF assms r refl]
    from p(4) have "\<forall>p \<in> set (files (snd (capture_images cam C w))).
               p \<in> set (files w) \<or> prefix (class_dir C (flag (buzzer_class w) C) @ ''/'') p"
      by blast
    with p(1) p(3) show "isdir (class_dir C (flag (buzzer_class w) C)) (snd (capture_images cam C w))
          \<and> (\<exists>w1 fns w2.
                make_class_dir cam (class_dir C (flag (buzzer_class w) C)) w = Inr w1
              \<and> take_photos_continuous cam C (flag (buzzer_class w) C) 5000 500 w1 = (Inr fns, w2)
              \<and> fns \<noteq> []
              \<and> (\<forall>f \<in> set fns.
                    f \<notin> set (files (snd (capture_images cam C w)))
                  \<and> real_dst f (dest C (flag (buzzer_class w) C) f) (snd (capture_images cam C w))
                      \<in> set (files (snd (capture_images cam C w)))
                  \<and> prefix (class_dir C (flag (buzzer_class w) C) @ ''/'')
                      (real_dst f (dest C (flag (buzzer_class w) C) f)
                         (snd (capture_images cam C w)))))
          \<and> (\<forall>p \<in> set (files (snd (capture_images cam C w))).
               p \<in> set (files w) \<or> prefix (class_dir C (flag (buzzer_class w) C) @ ''/'') p)"
      by (intro conjI)
  qed
  have 5: "dirs (flag_class B v) = dirs v \<and> files (flag_class B v) = files v" for v
    by (simp add: flag_class_def)
  from 1 2 3 4 5 show ?thesis by (intro conjI) blast+
qed

lemma class_dir_root: "class_dir ''/x'' ''ndan'' = ''/x_ndan''"
  by (simp add: class_dir_def path_join_def DATA_DIR_def suffix_to_prefix)

lemma make_class_dir_root:
  "make_class_dir steady_camera ''/x_ndan'' wire_flagged =
     Inr \<lparr>buzzer_class = Some ''wire'', dirs = [''.'', ''./training_data'', ''/x_ndan''], files = [], clock = 0,
      cam_started = 0, cam_stopped = 0, shots = 0,
      console = [CreatedFolder ''/x_ndan'']\<rparr>"
  by (simp add: make_class_dir_def makedirs_def path_error_def path_exists_def isdir_def
      ancestors.simps dirname_def wire_flagged_def steady_camera_def say_def Let_def)

lemma warm_up_root:
  "warm_up steady_camera 5000
     \<lparr>buzzer_class = Some ''wire'', dirs = [''.'', ''./training_data'', ''/x_ndan''], files = [], clock = 0,
      cam_started = 0, cam_stopped = 0, shots = 0,
      console = [CreatedFolder ''/x_ndan'']\<rparr> =
   (None,
     \<lparr>buzzer_class = Some ''wire'', dirs = [''.'', ''./training_data'', ''/x_ndan''], files = [], clock = 3000,
      cam_started = Suc 0, cam_stopped = 0, shots = 0,
      console = [CreatedFolder ''/x_ndan'', BurstStart 5000]\<rparr>)"
  by (simp add: warm_up_def sleep_def cam_start_def say_def steady_camera_def)

lemma capture_loop_root:
  "capture_loop steady_camera 3000 5000 500 []
     \<lparr>buzzer_class = Some ''wire'', dirs = [''.'', ''./training_data'', ''/x_ndan''], files = [], clock = 3000,
      cam_started = Suc 0, cam_stopped = 0, shots = 0,
      console = [CreatedFolder ''/x_ndan'', BurstStart 5000]\<rparr> =
   (None, [''capture_1.jpg''],
     \<lparr>buzzer_class = Some ''wire'', dirs = [''.'', ''./training_data'', ''/x_ndan''], files = [''capture_1.jpg''], clock = 8500,
      cam_started = Suc 0, cam_stopped = 0, shots = Suc 0,
      console = [CreatedFolder ''/x_ndan'', BurstStart 5000, CapturedImage (Suc 0) ''capture_1.jpg'']\<rparr>)"
  apply (subst capture_loop.simps)
  apply (simp add: sleep_def say_def steady_camera_def Let_def)
  apply (subst capture_loop.simps)
  apply simp
  done

lemma take_photos_continuous_root:
  "take_photos_continuous steady_camera ''/x'' ''ndan'' 5000 500
     \<lparr>buzzer_class = Some ''wire'', dirs = [''.'', ''./training_data'', ''/x_ndan''], files = [], clock = 0,
      cam_started = 0, cam_stopped = 0, shots = 0,
      console = [CreatedFolder ''/x_ndan'']\<rparr> =
   (Inr [''capture_1.jpg''],
     \<lparr>buzzer_class = Some ''wire'', dirs = [''.'', ''./training_data'', ''/x_ndan''], files = [''capture_1.jpg''], clock = 8500,
      cam_started = Suc 0, cam_stopped = Suc 0, shots = Suc 0,
      console = [CreatedFolder ''/x_ndan'', BurstStart 5000, CapturedImage (Suc 0) ''capture_1.jpg'', CaptureComplete (Suc 0)]\<rparr>)"
  unfolding take_photos_continuous_def warm_up_root
  apply (simp add: burst_def capture_loop_root)
  apply (simp add: cam_stop_def say_def steady_camera_def)
  done

lemma dest_root:
  "dest ''/x'' ''ndan'' ''capture_1.jpg''
     = ''/xndancapture_1.jpg''"
  by (simp add: dest_def class_dir_root path_join_def basename_def suffix_to_prefix)

lemma ancestors_root:
  "ancestors ''/xndancapture_1.jpg'' =
     [''/'']"
  by (simp add: ancestors.simps dirname_def Let_def)

lemma move_files_root:
  "move_files steady_camera ''/x'' ''ndan'' [''capture_1.jpg'']
     \<lparr>buzzer_class = Some ''wire'', dirs = [''.'', ''./training_data'', ''/x_ndan''], files = [''capture_1.jpg''], clock = 8500,
      cam_started = Suc 0, cam_stopped = Suc 0, shots = Suc 0,
      console = [CreatedFolder ''/x_ndan'', BurstStart 5000, CapturedImage (Suc 0) ''capture_1.jpg'', CaptureComplete (Suc 0)]\<rparr> =
   (None,
     \<lparr>buzzer_class = Some ''wire'', dirs = [''.'', ''./training_data'', ''/x_ndan''], files = [''/xndancapture_1.jpg''], clock = 8500,
      cam_started = Suc 0, cam_stopped = Suc 0, shots = Suc 0,
      console = [CreatedFolder ''/x_ndan'', BurstStart 5000, CapturedImage (Suc 0) ''capture_1.jpg'', CaptureComplete (Suc 0)]\<rparr>)"
  by (simp add: dest_root move_def real_dst_def path_error_def ancestors_root isdir_def
      path_exists_def steady_camera_def)

lemma capture_images_root:
  "capture_images steady_camera ''/x'' wire_flagged =
   (None,
     \<lparr>buzzer_class = Some ''wire'', dirs = [''.'', ''./training_data'', ''/x_ndan''], files = [''/xndancapture_1.jpg''], clock = 8500,
      cam_started = Suc 0, cam_stopped = Suc 0, shots = Suc 0,
      console = [CreatedFolder ''/x_ndan'', BurstStart 5000, CapturedImage (Suc 0) ''capture_1.jpg'', CaptureComplete (Suc 0), Saved (Suc 0) ''/x_ndan'', FlagLine ''ndan'']\<rparr>)"
proof -
  have f: "flag (buzzer_class wire_flagged) ''/x'' = ''ndan''"
    by (simp add: flag_def wire_flagged_def)
  show ?thesis
    unfolding capture_images_def f class_dir_root make_class_dir_root
    by (simp add: say_def take_photos_continuous_root move_files_root del: move_files.simps)
qed

text \<open>
  The claim as stated, for every non-empty class name, fails for a name that starts
  with a separator: \<open>os.path.join\<close> drops the data directory, and then the class
  directory as well. The call returns without raising; it has made the class
  directory at the root of the file system, outside the data directory, and has
  moved the captured file to the root, outside the class directory.
\<close>

theorem capture_images_directory_counterexample:
  "''/x'' \<noteq> [] \<and> flag None ''/x'' = ''ndan''
   \<and> class_dir ''/x'' (flag None ''/x'') = ''/x_ndan''
   \<and> \<not> prefix DATA_DIR (class_dir ''/x'' (flag None ''/x''))
   \<and> dest ''/x'' (flag None ''/x'') ''capture_1.jpg'' = ''/xndancapture_1.jpg''
   \<and> \<not> prefix (class_dir ''/x'' (flag None ''/x'')) (dest ''/x'' (flag None ''/x'') ''capture_1.jpg'')
   \<and> flag (buzzer_class wire_flagged) ''/x'' = ''ndan''
   \<and> fst (capture_images steady_camera ''/x'' wire_flagged) = None
   \<and> dirs (snd (capture_images steady_camera ''/x'' wire_flagged))
       = [''.'', ''./training_data'', ''/x_ndan'']
   \<and> files (snd (capture_images steady_camera ''/x'' wire_flagged)) = [''/xndancapture_1.jpg'']
   \<and> \<not> prefix ''/x_ndan/'' ''/xndancapture_1.jpg''"
proof -
  have 1: "''/x'' \<noteq> [] \<and> flag None ''/x'' = ''ndan''
   \<and> class_dir ''/x'' (flag None ''/x'') = ''/x_ndan''
   \<and> \<not> prefix DATA_DIR (class_dir ''/x'' (flag None ''/x''))
   \<and> dest ''/x'' (flag None ''/x'') ''capture_1.jpg'' = ''/xndancapture_1.jpg''
   \<and> \<not> prefix (class_dir ''/x'' (flag None ''/x'')) (dest ''/x'' (flag None ''/x'') ''capture_1.jpg'')"
    by (simp add: flag_def class_dir_def dest_def path_join_def DATA_DIR_def basename_def)
  have 2: "flag (buzzer_class wire_flagged) ''/x'' = ''ndan''"
    by (simp add: flag_def wire_flagged_def)
  have 3: "fst (capture_images steady_camera ''/x'' wire_flagged) = None"
    "dirs (snd (capture_images steady_camera ''/x'' wire_flagged))
       = [''.'', ''./training_data'', ''/x_ndan'']"
    "files (snd (capture_images steady_camera ''/x'' wire_flagged)) = [''/xndancapture_1.jpg'']"
    by (simp_all add: capture_images_root)
  have 4: "\<not> prefix ''/x_ndan/'' ''/xndancapture_1.jpg''" by simp
  from 1 2 3 4 show ?thesis by blast
qed

theorem capture_images_flag_and_directory_witness:
  "''wire'' \<noteq> [] \<and> CHR ''/'' \<notin> set ''wire''
   \<and> buzzer_class wire_flagged = Some ''wire''
   \<and> flag (buzzer_class wire_flagged) ''wire'' = ''dang''
   \<and> class_dir ''wire'' ''dang'' = ''./training_data/wire_dang''
   \<and> fst (capture_images steady_camera ''wire'' wire_flagged) = None
   \<and> isdir ''./training_data/wire_dang'' (snd (capture_images steady_camera ''wire'' wire_flagged))
   \<and> files (snd (capture_images steady_camera ''wire'' wire_flagged))
       = [''./training_data/wire_dang/wiredangcapture_1.jpg'']
   \<and> real_dst ''capture_1.jpg'' (dest ''wire'' ''dang'' ''capture_1.jpg'')
        (snd (capture_images steady_camera ''wire'' wire_flagged))
       = ''./training_data/wire_dang/wiredangcapture_1.jpg''
   \<and> dirs (flag_class ''pipe'' (snd (capture_images steady_camera ''wire'' wire_flagged)))
       = dirs (snd (capture_images steady_camera ''wire'' wire_flagged))"
proof -
  have h: "''wire'' \<noteq> []" "CHR ''/'' \<notin> set ''wire''" by simp_all
  have b: "buzzer_class wire_flagged = Some ''wire''" "files wire_flagged = []"
    by (simp_all add: wire_flagged_def)
  have r: "fst (capture_images steady_camera ''wire'' wire_flagged) = None"
    by (simp add: capture_images_wire)
  have f: "flag (buzzer_class wire_flagged) ''wire'' = ''dang''"
    by (simp add: flag_def b)
  note t = capture_images_flag_and_directory [OF h, of wire_flagged "''capture_1.jpg''"
      steady_camera "''pipe''", unfolded f class_dir_wire]
  have 1: "isdir ''./training_data/wire_dang'' (snd (capture_images steady_camera ''wire'' wire_flagged))"
    using t r by blast
  have 3: "dirs (flag_class ''pipe'' (snd (capture_images steady_camera ''wire'' wire_flagged)))
       = dirs (snd (capture_images steady_camera ''wire'' wire_flagged))"
    using t by blast
  have 4: "files (snd (capture_images steady_camera ''wire'' wire_flagged))
       = [''./training_data/wire_dang/wiredangcapture_1.jpg'']"
    by (simp add: capture_images_wire)
  have 5: "real_dst ''capture_1.jpg'' (dest ''wire'' ''dang'' ''capture_1.jpg'')
        (snd (capture_images steady_camera ''wire'' wire_flagged))
       = ''./training_data/wire_dang/wiredangcapture_1.jpg''"
    by (simp add: capture_images_wire dest_wire real_dst_def isdir_def)
  from h b(1) f class_dir_wire r 1 3 4 5 show ?thesis by blast
qed


section \<open>Properties of the diagnostic runner\<close>

lemma diag_steps [simp]:
  "class_indices (begin_check c s) = class_indices s"
  "label_file_now (begin_check c s) = label_file_now s"
  "executed (begin_check c s) = executed s @ [c]"
  "ending (begin_check c s) = ending s"
  "class_indices (report_fail c s) = class_indices s"
  "label_file_now (report_fail c s) = label_file_now s"
  "executed (report_fail c s) = executed s"
  "ending (report_fail c s) = ending s"
  by (simp_all add: begin_check_def report_fail_def)

lemma test_inference_keeps:
  "class_indices (test_inference env itc s) = class_indices s \<and>
   label_file_now (test_inference env itc s) = label_file_now s"
  by (simp add: test_inference_def summary_def split: sum.splits option.splits)

lemma test_camera_keeps:
  "class_indices (test_camera env itc s) = class_indices s \<and>
   label_file_now (test_camera env itc s) = label_file_now s"
  by (simp add: test_camera_def test_inference_keeps split: option.splits)

lemma test_buzzer_keeps:
  "class_indices (test_buzzer env itc s) = class_indices s \<and>
   label_file_now (test_buzzer env itc s) = label_file_now s"
  by (simp add: test_buzzer_def test_camera_keeps split: option.splits)

lemma build_index_to_class_keeps:
  "class_indices (build_index_to_class env s) = class_indices s \<and>
   label_file_now (build_index_to_class env s) = label_file_now s"
  by (simp add: build_index_to_class_def test_buzzer_keeps split: option.splits)

lemma run_to_class_indices:
  assumes "model_file env" and "missing_deps (import_result env) dependencies = Inr []"
    and "load_model env = Inr (sz, N)"
  shows "run_diagnostic env =
     test_class_indices env N
       \<lparr>executed = [FilesCheck, DependencyCheck, ModelLoad], failed = [], class_indices = None,
          label_file_now = label_file env, ending = Completed\<rparr>"
  using assms
  by (simp add: run_diagnostic_def test_dependencies_def test_load_model_def begin_check_def)

text \<open>
  Claim C6. Without the model file the run ends at once with \<open>sys.exit(1)\<close>: the
  file check is the only check executed, and nothing is written.
\<close>

theorem missing_model_file_stops_run:
  assumes "\<not> model_file env"
  shows "ending (run_diagnostic env) = SysExit 1
       \<and> exit_code (ending (run_diagnostic env)) = Some 1
       \<and> executed (run_diagnostic env) = [FilesCheck]
       \<and> label_file_now (run_diagnostic env) = label_file env"
  using assms by (simp add: run_diagnostic_def exit_code_def)

theorem missing_model_file_stops_run_witness:
  "\<not> model_file (healthy\<lparr>model_file := False\<rparr>)
   \<and> exit_code (ending (run_diagnostic (healthy\<lparr>model_file := False\<rparr>))) = Some 1
   \<and> executed (run_diagnostic (healthy\<lparr>model_file := False\<rparr>)) = [FilesCheck]"
proof -
  have h: "\<not> model_file (healthy\<lparr>model_file := False\<rparr>)" by simp
  from missing_model_file_stops_run [OF h] h show ?thesis by blast
qed

lemma lex_brace: "lex ''{'' = [TLBrace]"
  by (simp add: lex.simps is_ws_def)

lemma healthy_deps: "missing_deps (import_result healthy) dependencies = Inr []"
  by (simp add: healthy_def dependencies_def)

text \<open>
  Claim C3 asks that an unparsable label file be survived. The handler of the
  label-map check catches the error and leaves \<open>class_indices = None\<close>; the next
  statement calls \<open>.items()\<close> on it outside every \<open>try\<close>. On the label file
  \<open>{\<close> the run ends there with \<open>AttributeError\<close> and status 1, and the buzzer,
  camera and inference checks are never started.
\<close>

theorem unparsable_label_file_crashes:
  "json_loads ''{'' = Malformed
   \<and> ending (run_diagnostic (healthy\<lparr>label_file := Some ''{''\<rparr>)) = Uncaught AttributeError
   \<and> exit_code (ending (run_diagnostic (healthy\<lparr>label_file := Some ''{''\<rparr>))) = Some 1
   \<and> executed (run_diagnostic (healthy\<lparr>label_file := Some ''{''\<rparr>))
       = [FilesCheck, DependencyCheck, ModelLoad, LabelMap]"
proof -
  have j: "json_loads ''{'' = Malformed"
    by (simp add: json_loads_def lex_brace parse_doc_def)
  have r: "run_diagnostic (healthy\<lparr>label_file := Some ''{''\<rparr>) =
     test_class_indices (healthy\<lparr>label_file := Some ''{''\<rparr>) 2
       \<lparr>executed = [FilesCheck, DependencyCheck, ModelLoad], failed = [], class_indices = None,
          label_file_now = label_file (healthy\<lparr>label_file := Some ''{''\<rparr>), ending = Completed\<rparr>"
    by (rule run_to_class_indices [where sz = 224])
       (simp_all add: healthy_def dependencies_def)
  show ?thesis
    unfolding r using j
    by (simp add: test_class_indices_def build_index_to_class_def begin_check_def report_fail_def
        exit_code_def exit_status_def)
qed

subsection \<open>Decimal numerals\<close>

lemma of_char_digit_char: "d < 10 \<Longrightarrow> (of_char (digit_char d) :: nat) = 48 + d"
  by (simp add: digit_char_def)

lemma is_digit_digit_char: "d < 10 \<Longrightarrow> is_digit (digit_char d)"
  by (simp add: is_digit_def of_char_digit_char)

lemma digit_char_zero: "d < 10 \<Longrightarrow> digit_char d = CHR ''0'' \<longleftrightarrow> d = 0"
proof
  assume d: "d < 10" and "digit_char d = CHR ''0''"
  then have "(of_char (digit_char d) :: nat) = of_char CHR ''0''" by simp
  with d show "d = 0" by (simp add: of_char_digit_char)
next
  assume z: "d = 0"
  have "char_of (of_char CHR ''0'' :: nat) = CHR ''0''" by (rule char_of_char)
  then show "digit_char d = CHR ''0''" by (simp add: digit_char_def z)
qed

lemma str_nat_nonempty: "str_nat n \<noteq> []"
  by (subst str_nat.simps) simp

lemma str_nat_digits: "c \<in> set (str_nat n) \<Longrightarrow> is_digit c"
proof (induction n arbitrary: c rule: str_nat.induct)
  case (1 n)
  show ?case
  proof (cases "n < 10")
    case True
    with "1.prems" show ?thesis
      by (simp add: str_nat.simps [of n] is_digit_digit_char)
  next
    case False
    with "1.prems" "1.IH" show ?thesis
      by (auto simp: str_nat.simps [of n] is_digit_digit_char)
  qed
qed

lemma nat_of_digits_snoc:
  "nat_of_digits (ds @ [c]) = 10 * nat_of_digits ds + ((of_char c :: nat) - 48)"
  by (simp add: nat_of_digits_def)

lemma nat_of_digits_str_nat: "nat_of_digits (str_nat n) = n"
proof (induction n rule: str_nat.induct)
  case (1 n)
  show ?case
  proof (cases "n < 10")
    case True
    then show ?thesis
      by (simp add: str_nat.simps [of n] nat_of_digits_def of_char_digit_char)
  next
    case False
    with "1.IH" show ?thesis
      by (simp add: str_nat.simps [of n] nat_of_digits_snoc of_char_digit_char)
  qed
qed

lemma str_nat_inj: "str_nat a = str_nat b \<Longrightarrow> a = b"
  by (metis nat_of_digits_str_nat)

lemma hd_str_nat: "hd (str_nat n) = CHR ''0'' \<Longrightarrow> n = 0"
proof (induction n rule: str_nat.induct)
  case (1 n)
  show ?case
  proof (cases "n < 10")
    case True
    with "1.prems" show ?thesis
      by (simp add: str_nat.simps [of n] digit_char_zero)
  next
    case False
    then have "hd (str_nat n) = hd (str_nat (n div 10))"
      by (simp add: str_nat.simps [of n] str_nat_nonempty)
    with "1.IH" [OF False] "1.prems" have "n div 10 = 0" by simp
    with False show ?thesis by simp
  qed
qed

subsection \<open>Dictionaries\<close>

lemma dict_set_fresh: "k \<notin> fst ` set d \<Longrightarrow> dict_set k v d = d @ [(k, v)]"
  by (induction d) auto

lemma foldl_dict_set_distinct:
  "distinct (map fst (acc @ ps)) \<Longrightarrow> foldl (\<lambda>d (k, v). dict_set k v d) acc ps = acc @ ps"
proof (induction ps arbitrary: acc)
  case Nil
  show ?case by simp
next
  case (Cons p ps)
  obtain k v where p: "p = (k, v)" by (cases p)
  have f: "k \<notin> fst ` set acc" using Cons.prems p by auto
  have "distinct (map fst ((acc @ [(k, v)]) @ ps))" using Cons.prems p by simp
  from Cons.IH [OF this] show ?case by (simp add: p dict_set_fresh [OF f])
qed

lemma dict_of_distinct: "distinct (map fst ps) \<Longrightarrow> dict_of ps = ps"
  unfolding dict_of_def using foldl_dict_set_distinct [of "[]" ps] by simp

subsection \<open>The synthesized label map\<close>

lemma class_names_distinct: "distinct (map (\<lambda>i. ''class_'' @ str_nat i) [0..<n])"
  by (simp add: distinct_map inj_on_def str_nat_inj)

lemma default_class_indices_generic:
  "n \<noteq> 2 \<Longrightarrow> default_class_indices n = map (\<lambda>i. (''class_'' @ str_nat i, int i)) [0..<n]"
  unfolding default_class_indices_def
  using dict_of_distinct [of "map (\<lambda>i. (''class_'' @ str_nat i, int i)) [0..<n]"]
    class_names_distinct [of n]
  by (simp add: comp_def)

lemma default_class_indices_shape:
  "length (default_class_indices n) = n
   \<and> distinct (map fst (default_class_indices n))
   \<and> map snd (default_class_indices n) = map int [0..<n]"
proof (cases "n = 2")
  case True
  have "[0..<2] = [0, Suc 0]" by (simp add: upt_rec)
  with True show ?thesis by (simp add: default_class_indices_def)
next
  case False
  show ?thesis
    unfolding default_class_indices_generic [OF False]
    using class_names_distinct [of n] by (simp add: comp_def)
qed

subsection \<open>Reading back what was written\<close>

lemma esc_plain: "printable c \<Longrightarrow> c \<noteq> DQ \<Longrightarrow> c \<noteq> BSL \<Longrightarrow> esc c = [c]"
  by (auto simp: esc_def printable_def Let_def)

lemma special_chars:
  "DQ \<noteq> BSL" "(of_char DQ :: nat) = 34" "(of_char BSL :: nat) = 92" "(of_char NL :: nat) = 10"
  by (simp_all add: DQ_def BSL_def NL_def)

lemma scan_str_esc:
  "\<forall>c \<in> set k. printable c \<Longrightarrow>
   scan_str (concat (map esc k) @ DQ # rest) = Parsed (k, Suc (length (concat (map esc k))))"
proof (induction k)
  case Nil
  show ?case by simp
next
  case (Cons c k)
  then have ih: "scan_str (concat (map esc k) @ DQ # rest)
       = Parsed (k, Suc (length (concat (map esc k))))"
    and p: "printable c" by simp_all
  consider (dq) "c = DQ" | (bsl) "c = BSL" | (plain) "c \<noteq> DQ" "c \<noteq> BSL" by blast
  then show ?case
  proof cases
    case dq
    have e: "esc DQ = [BSL, DQ]" by (simp add: esc_def)
    show ?thesis
      unfolding dq using ih special_chars(1) by (simp add: e unescape_def)
  next
    case bsl
    have e: "esc BSL = [BSL, BSL]" using special_chars(1) by (simp add: esc_def)
    show ?thesis
      unfolding bsl using ih special_chars(1) by (simp add: e unescape_def)
  next
    case plain
    have n: "\<not> (of_char c :: nat) < 32" using p by (simp add: printable_def)
    show ?thesis
      using ih plain n by (simp add: esc_plain [OF p plain])
  qed
qed

lemma lex_ws: "is_ws c \<Longrightarrow> lex (c # s) = lex s"
  by (simp add: lex.simps(2) [of c s])

lemma lex_blank [simp]: "lex (CHR '' '' # s) = lex s" "lex (NL # s) = lex s"
  by (simp_all add: lex_ws is_ws_def special_chars)

lemma lex_punct [simp]:
  "lex (CHR ''{'' # s) = TLBrace # lex s" "lex (CHR ''}'' # s) = TRBrace # lex s"
  "lex (CHR '':'' # s) = TColon # lex s" "lex (CHR '','' # s) = TComma # lex s"
  by (simp_all add: lex.simps(2) [of _ s] is_ws_def)

lemma lex_string:
  assumes "\<forall>c \<in> set k. printable c"
  shows "lex (json_string k @ rest) = TStr k # lex rest"
proof -
  have w: "\<not> is_ws DQ" by (simp add: is_ws_def DQ_def)
  have d: "DQ \<noteq> CHR ''{''" "DQ \<noteq> CHR ''}''" "DQ \<noteq> CHR '':''" "DQ \<noteq> CHR '',''"
    by (simp_all add: DQ_def)
  have "lex (DQ # concat (map esc k) @ DQ # rest) = TStr k # lex rest"
    using w d scan_str_esc [OF assms, of rest]
    by (simp add: lex.simps(2) [of DQ])
  then show ?thesis by (simp add: json_string_def)
qed

lemma takeWhile_all:
  "\<forall>x \<in> set xs. P x \<Longrightarrow> rest = [] \<or> \<not> P (hd rest) \<Longrightarrow> takeWhile P (xs @ rest) = xs"
  by (cases rest) (simp_all add: takeWhile_append2)

lemma str_nat_zero: "str_nat 0 = ''0''"
proof -
  have "char_of (of_char CHR ''0'' :: nat) = CHR ''0''" by (rule char_of_char)
  then show ?thesis by (simp add: str_nat.simps [of 0] digit_char_def)
qed

lemma int_part_str_nat:
  assumes "rest = [] \<or> \<not> is_digit (hd rest)"
  shows "int_part (str_nat n @ rest) = str_nat n"
proof -
  have t: "takeWhile is_digit (str_nat n @ rest) = str_nat n"
    using takeWhile_all [of "str_nat n" is_digit rest] str_nat_digits assms by blast
  obtain c ds where s: "str_nat n = c # ds"
    using str_nat_nonempty [of n] by (cases "str_nat n") auto
  show ?thesis
  proof (cases "c = CHR ''0''")
    case True
    then have "n = 0" using hd_str_nat [of n] s by simp
    then show ?thesis using t str_nat_zero by (simp add: int_part_def)
  next
    case False
    then show ?thesis using t s by (simp add: int_part_def)
  qed
qed

lemma digit_not_special:
  assumes "is_digit c"
  shows "\<not> is_ws c" "c \<noteq> CHR ''{''" "c \<noteq> CHR ''}''" "c \<noteq> CHR '':''" "c \<noteq> CHR '',''"
    "c \<noteq> DQ" "c \<noteq> CHR ''-''"
  using assms by (auto simp: is_digit_def is_ws_def DQ_def)

lemma lex_nat:
  assumes "rest = [] \<or> (\<not> is_digit (hd rest) \<and> hd rest \<notin> set ''.eE'')"
  shows "lex (str_nat n @ rest) = TInt (int n) # lex rest"
proof -
  obtain c ds where s: "str_nat n = c # ds"
    using str_nat_nonempty [of n] by (cases "str_nat n") auto
  have d: "is_digit c" using str_nat_digits [of c n] s by simp
  have ip: "int_part (c # ds @ rest) = c # ds"
    using int_part_str_nat [of rest n] assms s by auto
  have v: "nat_of_digits (c # ds) = n" using nat_of_digits_str_nat [of n] s by simp
  have "lex (c # ds @ rest) = TInt (int n) # lex rest"
    using d digit_not_special [OF d] assms
    by (auto simp: lex.simps(2) [of c "ds @ rest"] ip v)
  then show ?thesis by (simp add: s)
qed

lemma lex_int:
  assumes "rest = [] \<or> (\<not> is_digit (hd rest) \<and> hd rest \<notin> set ''.eE'')"
  shows "lex (str_int v @ rest) = TInt v # lex rest"
proof (cases "v < 0")
  case False
  then show ?thesis using lex_nat [OF assms, of "nat v"] by (simp add: str_int_def)
next
  case True
  define m where "m = nat (- v)"
  have ip: "int_part (str_nat m @ rest) = str_nat m"
    using int_part_str_nat [of rest m] assms by auto
  have w: "\<not> is_ws (CHR ''-'')" "CHR ''-'' \<noteq> DQ" by (simp_all add: is_ws_def DQ_def)
  have "lex (CHR ''-'' # str_nat m @ rest) = TInt (- int m) # lex rest"
    using w assms str_nat_nonempty [of m]
    by (auto simp: lex.simps(2) [of "CHR ''-''" "str_nat m @ rest"] ip nat_of_digits_str_nat)
  then show ?thesis using True by (simp add: str_int_def m_def)
qed

lemma after_number:
  "\<not> is_digit NL" "NL \<notin> set ''.eE''" "\<not> is_digit (CHR '','')" "CHR '','' \<notin> set ''.eE''"
  by (simp_all add: is_digit_def NL_def)

lemma lex_item:
  assumes "\<forall>c \<in> set (fst kv). printable c"
    and "rest = [] \<or> (\<not> is_digit (hd rest) \<and> hd rest \<notin> set ''.eE'')"
  shows "lex (json_item kv @ rest) = TStr (fst kv) # TColon # TInt (snd kv) # lex rest"
proof -
  have "lex (json_item kv @ rest)
      = lex (json_string (fst kv) @ CHR '':'' # CHR '' '' # str_int (snd kv) @ rest)"
    by (simp add: json_item_def)
  also have "\<dots> = TStr (fst kv) # lex (CHR '':'' # CHR '' '' # str_int (snd kv) @ rest)"
    by (rule lex_string [OF assms(1)])
  also have "\<dots> = TStr (fst kv) # TColon # lex (str_int (snd kv) @ rest)"
    by simp
  also have "\<dots> = TStr (fst kv) # TColon # TInt (snd kv) # lex rest"
    by (simp add: lex_int [OF assms(2)])
  finally show ?thesis .
qed

lemma lex_items:
  "d \<noteq> [] \<Longrightarrow> \<forall>kv \<in> set d. \<forall>c \<in> set (fst kv). printable c \<Longrightarrow>
   lex (json_items d @ [NL, CHR ''}'']) = member_tokens d @ [TRBrace]"
proof (induction d rule: json_items.induct)
  case 1
  then show ?case by simp
next
  case (2 kv)
  have "lex (json_item kv @ [NL, CHR ''}'']) = TStr (fst kv) # TColon # TInt (snd kv) # lex [NL, CHR ''}'']"
    using 2 after_number by (intro lex_item) simp_all
  then show ?case by (simp add: lex.simps(1))
next
  case (3 kv kv' rest)
  have "lex (json_item kv @ CHR '','' # NL # json_items (kv' # rest) @ [NL, CHR ''}''])
      = TStr (fst kv) # TColon # TInt (snd kv)
          # lex (CHR '','' # NL # json_items (kv' # rest) @ [NL, CHR ''}''])"
    using "3.prems" after_number by (intro lex_item) simp_all
  then show ?case using "3.IH" "3.prems" by simp
qed

lemma lex_json_dumps:
  assumes "\<forall>kv \<in> set d. \<forall>c \<in> set (fst kv). printable c"
  shows "lex (json_dumps d) = TLBrace # member_tokens d @ [TRBrace]"
proof (cases "d = []")
  case True
  then show ?thesis by (simp add: json_dumps_def lex.simps(1))
next
  case False
  then show ?thesis using lex_items [OF False assms] by (simp add: json_dumps_def)
qed

lemma parse_member_tokens:
  "d \<noteq> [] \<Longrightarrow>
   parse_members (member_tokens d @ [TRBrace]) acc
     = Parsed (foldl (\<lambda>a (k, v). dict_set k v a) acc d)"
proof (induction d arbitrary: acc rule: member_tokens.induct)
  case 1
  then show ?case by simp
next
  case (2 kv)
  then show ?case by (simp add: case_prod_beta)
next
  case (3 kv kv' rest)
  then show ?case by (simp add: case_prod_beta)
qed

lemma json_round_trip:
  assumes "\<forall>kv \<in> set d. \<forall>c \<in> set (fst kv). printable c" and "distinct (map fst d)"
  shows "json_loads (json_dumps d) = Parsed d"
proof (cases d)
  case Nil
  then show ?thesis
    using lex_json_dumps [OF assms(1)] by (simp add: json_loads_def parse_doc_def)
next
  case (Cons kv rest)
  have t: "member_tokens d @ [TRBrace] = TStr (fst kv) # tl (member_tokens d @ [TRBrace])"
    unfolding Cons by (cases rest) simp_all
  have "parse_doc (TLBrace # member_tokens d @ [TRBrace])
      = parse_members (member_tokens d @ [TRBrace]) []"
    by (subst (1 2) t) (simp add: parse_doc_def)
  also have "\<dots> = Parsed (dict_of d)"
    using parse_member_tokens [of d "[]"] Cons by (simp add: dict_of_def)
  finally show ?thesis
    using lex_json_dumps [OF assms(1)] dict_of_distinct [OF assms(2)]
    by (simp add: json_loads_def)
qed

lemma digit_printable: "is_digit c \<Longrightarrow> printable c"
  by (simp add: is_digit_def printable_def)

lemma default_keys_printable:
  "\<forall>kv \<in> set (default_class_indices n). \<forall>c \<in> set (fst kv). printable c"
proof (cases "n = 2")
  case True
  then show ?thesis by (simp add: default_class_indices_def printable_def)
next
  case False
  have "printable c" if "c \<in> set (''class_'' @ str_nat i)" for c i
  proof -
    from that consider "c \<in> set ''class_''" | "c \<in> set (str_nat i)" by auto
    then show ?thesis
    proof cases
      case 1
      then show ?thesis by (auto simp: printable_def)
    next
      case 2
      then show ?thesis using str_nat_digits digit_printable by blast
    qed
  qed
  then show ?thesis unfolding default_class_indices_generic [OF False] by auto
qed

lemma default_round_trip:
  "json_loads (json_dumps (default_class_indices n)) = Parsed (default_class_indices n)"
  using json_round_trip [OF default_keys_printable] default_class_indices_shape [of n] by blast

lemma run_without_label_file:
  assumes "model_file env" and "missing_deps (import_result env) dependencies = Inr []"
    and "load_model env = Inr (sz, N)" and "label_file env = None"
  shows "class_indices (run_diagnostic env) = Some (default_class_indices N)
       \<and> label_file_now (run_diagnostic env) = Some (json_dumps (default_class_indices N))"
  unfolding run_to_class_indices [OF assms(1,2,3)]
  using assms(4) by (simp add: test_class_indices_def build_index_to_class_keeps)

lemma run_with_label_file:
  assumes "model_file env" and "missing_deps (import_result env) dependencies = Inr []"
    and "load_model env = Inr (sz, N)" and "label_file env = Some c" and "json_loads c = Parsed d"
  shows "class_indices (run_diagnostic env) = Some d"
  unfolding run_to_class_indices [OF assms(1,2,3)]
  using assms(4,5) by (simp add: test_class_indices_def build_index_to_class_keeps)











text \<open>
  Claim C7. The text written for the synthesized map reads back as the same map:
  a second run that finds the file written by the first one loads exactly the
  \<open>class_indices\<close> the first one built.
\<close>

theorem label_file_round_trip:
  assumes "model_file env" and "missing_deps (import_result env) dependencies = Inr []"
    and "load_model env = Inr (sz, N)" and "label_file env = None"
  shows "label_file_now (run_diagnostic env) = Some (json_dumps (default_class_indices N))
       \<and> json_loads (json_dumps (default_class_indices N)) = Parsed (default_class_indices N)
       \<and> class_indices (run_diagnostic (env\<lparr>label_file := label_file_now (run_diagnostic env)\<rparr>))
           = class_indices (run_diagnostic env)"
proof -
  note r = run_without_label_file [OF assms]
  let ?env = "env\<lparr>label_file := Some (json_dumps (default_class_indices N))\<rparr>"
  have "class_indices (run_diagnostic ?env) = Some (default_class_indices N)"
    by (rule run_with_label_file [where sz = sz and N = N and c = "json_dumps (default_class_indices N)"])
       (simp_all add: assms default_round_trip)
  with r default_round_trip [of N] show ?thesis by simp
qed

theorem label_file_round_trip_witness:
  "model_file healthy \<and> missing_deps (import_result healthy) dependencies = Inr []
   \<and> load_model healthy = Inr (224, 2) \<and> label_file healthy = None
   \<and> json_loads (json_dumps (default_class_indices 2)) = Parsed (default_class_indices 2)
   \<and> class_indices (run_diagnostic (healthy\<lparr>label_file := label_file_now (run_diagnostic healthy)\<rparr>))
       = class_indices (run_diagnostic healthy)"
proof -
  have h: "model_file healthy" "load_model healthy = Inr (224, 2)" "label_file healthy = None"
    by (simp_all add: healthy_def)
  from label_file_round_trip [OF h(1) healthy_deps h(2) h(3)] h healthy_deps
  show ?thesis by blast
qed


section \<open>Properties of the census\<close>

lemma flag_emoji_iff: "flag_emoji folder = Dangerous \<longleftrightarrow> sublist ''_dang'' folder"
  by (simp add: flag_emoji_def)

lemma isdir_say [simp]: "isdir p (say m w) = isdir p w"
  by (simp add: isdir_def)

lemma listdir_say [simp]: "listdir d (say m w) = listdir d w"
  by (simp add: listdir_def isdir_def)























subsection \<open>A class name with a separator\<close>
















end
